theory Spec2Isabelle
  imports Main "HOL-Library.Multiset"
begin

section \<open>Errors\<close>

text \<open>
  The exceptions the generator core can raise, each carrying its message.  The two source
  files (the command-line module and the GUI module, which embeds the same core) raise
  Python's built-in exception classes only.  The messages of the exceptions the two
  modules raise themselves are the modules' own texts.  An exception raised inside the
  interpreter or its library carries the library's text, whose wording changes between
  Python versions; the model gives such a text in substance, and statements about those
  exceptions speak of the class and of the message being there, not of its wording.
\<close>

datatype error =
    is_KeyError: KeyError (message: string)
  | is_ValueError: ValueError (message: string)
  | is_TypeError: TypeError (message: string)
  | is_AttributeError: AttributeError (message: string)
  | is_IndexError: IndexError (message: string)
  | is_FileNotFoundError: FileNotFoundError (message: string)
  | is_JSONDecodeError: JSONDecodeError (message: string)

text \<open>A call raises an exception of a given class.\<close>

definition raises :: "(error \<Rightarrow> bool) \<Rightarrow> error + 'a \<Rightarrow> bool" where
  "raises cls r = (case r of Inl e \<Rightarrow> cls e | Inr x \<Rightarrow> False)"

section \<open>Name Tidy\<close>

text \<open>
  A Python string is modelled by its UTF-8 encoding, a \<^typ>\<open>string\<close> of bytes: an ASCII
  character is one byte below 128, any other character is a lead byte followed by
  continuation bytes.  The lead byte tells how many bytes the character takes.
\<close>

definition utf8_width :: "char \<Rightarrow> nat" where
  "utf8_width b =
     Suc (if (of_char b :: nat) < 0xC0 then 0
          else if (of_char b :: nat) < 0xE0 then 1
          else if (of_char b :: nat) < 0xF0 then 2
          else 3)"

text \<open>
  \<open>str.replace(old, new)\<close> scans from the left, replaces each occurrence of \<open>old\<close> it meets
  by \<open>new\<close> and resumes behind the replaced occurrence (occurrences do not overlap and the
  output is not rescanned).  An occurrence of a well-formed \<open>old\<close> starts at a character
  boundary, so the scan can step by bytes.  With an empty \<open>old\<close> Python puts \<open>new\<close> before
  every character and at the end.
\<close>

function str_replace :: "string \<Rightarrow> string \<Rightarrow> string \<Rightarrow> string" where
  "str_replace [] old new = (if old = [] then new else [])"
| "str_replace (c # cs) old new =
     (if old = []
      then new @ take (utf8_width c) (c # cs) @
           str_replace (drop (utf8_width c) (c # cs)) old new
      else if take (length old) (c # cs) = old
           then new @ str_replace (drop (length old) (c # cs)) old new
      else c # str_replace cs old new)"
  by pat_completeness auto
termination
  by (relation "measure (\<lambda>(s, old, new). length s)")
     (auto simp: neq_Nil_conv utf8_width_def)

text \<open>\<open>ch.upper()\<close> for a one-character ASCII string: \<open>a..z\<close> go to \<open>A..Z\<close>, every other
  ASCII character stays.\<close>

definition ascii_upper :: "char \<Rightarrow> char" where
  "ascii_upper c =
     (case map_of (zip ''abcdefghijklmnopqrstuvwxyz'' ''ABCDEFGHIJKLMNOPQRSTUVWXYZ'') c of
        Some u \<Rightarrow> u
      | None \<Rightarrow> c)"

text \<open>
  \<open>ch.upper()\<close> for any one-character string.  Outside ASCII the result is given by the
  Unicode tables of the interpreter and can be several characters long (the sharp s
  becomes \<open>SS\<close>); that mapping, on encoded characters, is the parameter \<open>up\<close>.
\<close>

definition py_upper :: "(string \<Rightarrow> string) \<Rightarrow> string \<Rightarrow> string" where
  "py_upper up ch =
     (case ch of
        [c] \<Rightarrow> if (of_char c :: nat) < 128 then [ascii_upper c] else up ch
      | _ \<Rightarrow> up ch)"

text \<open>The first loop of \<open>_tidy_place_name\<close>:
  \<open>for ch in "abcdefghijklmnopqrstuvwxyz": out = out.replace(ch*3, ch*2)\<close>.\<close>

definition collapse_triples :: "string \<Rightarrow> string" where
  "collapse_triples raw =
     fold (\<lambda>ch out. str_replace out (replicate 3 ch) (replicate 2 ch))
          ''abcdefghijklmnopqrstuvwxyz'' raw"

text \<open>The second loop:
  \<open>for seq in ["tt", "ll", "ss", "ff", "rr", "mm", "nn"]: out = out.replace(seq, seq[0])\<close>.\<close>

definition smooth_doubles :: "string \<Rightarrow> string" where
  "smooth_doubles s =
     fold (\<lambda>seq out. str_replace out seq (take 1 seq))
          [''tt'', ''ll'', ''ss'', ''ff'', ''rr'', ''mm'', ''nn''] s"

text \<open>
  \<open>_tidy_place_name\<close> (the same in both modules).  \<open>out[0]\<close> raises IndexError on an empty
  string, so the model has that branch; otherwise \<open>out[0]\<close> is the first character, the
  bytes up to the width of the lead byte, and \<open>out[1:]\<close> is what follows it.
\<close>

definition tidy_place_name :: "(string \<Rightarrow> string) \<Rightarrow> string \<Rightarrow> error + string" where
  "tidy_place_name up raw =
     (if raw = [] then Inr raw
      else let out = smooth_doubles (collapse_triples raw)
           in (case out of
                 [] \<Rightarrow> Inl (IndexError ''string index out of range'')
               | c # cs \<Rightarrow>
                   Inr (py_upper up (take (utf8_width c) (c # cs)) @
                        drop (utf8_width c) (c # cs))))"

section \<open>The random source\<close>

text \<open>
  Both modules draw from the process-wide generator of Python's \<open>random\<close> module, which is
  not part of this repository.  Its state is modelled as the stream of raw outputs it is
  still going to produce; a bounded draw takes the next raw output and reduces it.  Every
  sequence of outcomes the library can produce is the behaviour of some stream, so a
  statement proved for every stream holds for every run.
\<close>

type_synonym rng = "nat \<Rightarrow> nat"

definition randbelow :: "nat \<Rightarrow> rng \<Rightarrow> nat \<times> rng" where
  "randbelow n g = (g 0 mod n, \<lambda>i. g (Suc i))"

text \<open>\<open>random.randint(a, b)\<close>: an integer of the inclusive range; an empty range raises
  ValueError.\<close>

definition randint :: "int \<Rightarrow> int \<Rightarrow> rng \<Rightarrow> error + (int \<times> rng)" where
  "randint a b g =
     (if b < a then Inl (ValueError ''empty range for randrange()'')
      else (case randbelow (nat (b - a + 1)) g of (r, g') \<Rightarrow> Inr (a + int r, g')))"

text \<open>\<open>random.choice(seq)\<close>: IndexError on an empty sequence.\<close>

definition choice :: "'a list \<Rightarrow> rng \<Rightarrow> error + ('a \<times> rng)" where
  "choice seq g =
     (if seq = [] then Inl (IndexError ''Cannot choose from an empty sequence'')
      else (case randbelow (length seq) g of (j, g') \<Rightarrow> Inr (seq ! j, g')))"

text \<open>
  \<open>random.sample(population, k)\<close>: ValueError unless \<open>0 \<le> k \<le> len(population)\<close>; otherwise
  \<open>k\<close> positions of the population drawn without replacement, in draw order.  The library
  works on a copy and leaves the population as it is.
\<close>

fun sample_draw :: "'a list \<Rightarrow> nat \<Rightarrow> rng \<Rightarrow> 'a list \<times> rng" where
  "sample_draw pool 0 g = ([], g)"
| "sample_draw pool (Suc k) g =
     (if pool = [] then ([], g)
      else (case randbelow (length pool) g of (j, g') \<Rightarrow>
              (case sample_draw (take j pool @ drop (Suc j) pool) k g' of
                 (rest, g'') \<Rightarrow> (pool ! j # rest, g''))))"

definition sample :: "'a list \<Rightarrow> int \<Rightarrow> rng \<Rightarrow> error + ('a list \<times> rng)" where
  "sample population k g =
     (if 0 \<le> k \<and> k \<le> int (length population)
      then Inr (sample_draw population (nat k) g)
      else Inl (ValueError ''Sample larger than population or is negative''))"

section \<open>Unique Picker\<close>

text \<open>\<open>pool.remove(x)\<close> deletes the first element equal to \<open>x\<close> and raises ValueError when
  there is none.\<close>

definition list_remove :: "'a list \<Rightarrow> 'a \<Rightarrow> error + 'a list" where
  "list_remove xs x =
     (if x \<in> set xs then Inr (remove1 x xs)
      else Inl (ValueError ''list.remove(x): x not in list''))"

text \<open>
  The loop of \<open>_pick_unique\<close> in the command-line module:
  \<^verbatim>\<open>
      while len(result) < n:
          if not pool:
              pool = src[:]
          choice = random.choice(pool)
          pool.remove(choice)
          result.append(choice)
  \<close>
\<close>

function pick_loop ::
  "'a list \<Rightarrow> int \<Rightarrow> 'a list \<Rightarrow> 'a list \<Rightarrow> rng \<Rightarrow> error + ('a list \<times> rng)" where
  "pick_loop src n pool result g =
     (if int (length result) < n then
        (let pool1 = (if pool = [] then src else pool) in
         case choice pool1 g of
           Inl e \<Rightarrow> Inl e
         | Inr (c, g') \<Rightarrow>
             (case list_remove pool1 c of
                Inl e \<Rightarrow> Inl e
              | Inr pool2 \<Rightarrow> pick_loop src n pool2 (result @ [c]) g'))
      else Inr (result, g))"
  by pat_completeness auto
termination
  by (relation "measure (\<lambda>(src, n, pool, result, g). nat (n - int (length result)))") auto

definition pick_unique :: "'a list \<Rightarrow> int \<Rightarrow> rng \<Rightarrow> error + ('a list \<times> rng)" where
  "pick_unique src n g =
     (if n \<le> int (length src) then sample src n g
      else if src \<noteq> [] then pick_loop src n src [] g
      else Inr ([], g))"

text \<open>
  The GUI module's variant tests \<open>src\<close> in the loop condition instead of before the loop:
  \<^verbatim>\<open>
      res, pool = [], list(src)
      while len(res) < n and src:
          ...
      return res
  \<close>
\<close>

function pick_loop_gui ::
  "'a list \<Rightarrow> int \<Rightarrow> 'a list \<Rightarrow> 'a list \<Rightarrow> rng \<Rightarrow> error + ('a list \<times> rng)" where
  "pick_loop_gui src n pool res g =
     (if int (length res) < n \<and> src \<noteq> [] then
        (let pool1 = (if pool = [] then src else pool) in
         case choice pool1 g of
           Inl e \<Rightarrow> Inl e
         | Inr (c, g') \<Rightarrow>
             (case list_remove pool1 c of
                Inl e \<Rightarrow> Inl e
              | Inr pool2 \<Rightarrow> pick_loop_gui src n pool2 (res @ [c]) g'))
      else Inr (res, g))"
  by pat_completeness auto
termination
  by (relation "measure (\<lambda>(src, n, pool, res, g). nat (n - int (length res)))") auto

definition pick_unique_gui :: "'a list \<Rightarrow> int \<Rightarrow> rng \<Rightarrow> error + ('a list \<times> rng)" where
  "pick_unique_gui src n g =
     (if n \<le> int (length src) then sample src n g
      else pick_loop_gui src n src [] g)"

section \<open>Data documents and the Data Loader\<close>

text \<open>
  What \<open>json.load\<close> returns: a JSON value.  An object is kept as its key/value pairs, looked
  up by key.  \<open>JNum\<close> stands for a number; the core never computes with one.
\<close>

datatype json =
    JNull
  | JBool bool
  | JNum int
  | JStr string
  | JArr "json list"
  | JObj "(string \<times> json) list"

text \<open>A string between single quotes, as \<open>'{kind}'\<close> in the messages puts it.\<close>

definition quoted :: "string \<Rightarrow> string" where
  "quoted s = CHR 0x27 # s @ [CHR 0x27]"

text \<open>
  \<open>v[key]\<close> with a string key: KeyError on a dict without the key, TypeError on every
  value that is not a dict.  The KeyError shows as \<open>repr(key)\<close>; how Python shows a value
  (its quoting and escaping follow the interpreter's Unicode tables) is the parameter
  \<open>repr\<close>.
\<close>

definition subscript :: "(json \<Rightarrow> string) \<Rightarrow> json \<Rightarrow> string \<Rightarrow> error + json" where
  "subscript repr v key =
     (case v of
        JObj kvs \<Rightarrow>
          (case map_of kvs key of
             Some x \<Rightarrow> Inr x
           | None \<Rightarrow> Inl (KeyError (repr (JStr key))))
      | JArr xs \<Rightarrow> Inl (TypeError ''list indices must be integers or slices, not str'')
      | JStr t \<Rightarrow> Inl (TypeError ''string indices must be integers'')
      | _ \<Rightarrow> Inl (TypeError ''object is not subscriptable''))"

text \<open>\<open>v.get(key, default)\<close>: only a dict has the method.\<close>

definition dict_get :: "json \<Rightarrow> string \<Rightarrow> json \<Rightarrow> error + json" where
  "dict_get v key dflt =
     (case v of
        JObj kvs \<Rightarrow> (case map_of kvs key of Some x \<Rightarrow> Inr x | None \<Rightarrow> Inr dflt)
      | _ \<Rightarrow> Inl (AttributeError ''object has no attribute get''))"

record PlaceData =
  place_roots :: "json list"

record NameData =
  male :: "json list"
  female :: "json list"

text \<open>
  \<open>PlaceData.from_json\<close> of the command-line module:
  \<^verbatim>\<open>
      try:
          roots = obj[kind]["place_roots"]
      except KeyError as e:
          raise KeyError(f"Missing key in plname json for type '{kind}': {e}")
      if not isinstance(roots, list) or not roots:
          raise ValueError("place_roots must be a non-empty list")
      return PlaceData(place_roots=roots)
  \<close>
  Only KeyError is caught and raised again with the longer message; a TypeError from
  subscripting a value that is not a dict passes through.
\<close>

definition PlaceData_from_json :: "(json \<Rightarrow> string) \<Rightarrow> json \<Rightarrow> string \<Rightarrow> error + PlaceData" where
  "PlaceData_from_json repr obj kind =
     (case (case subscript repr obj kind of
              Inl e \<Rightarrow> Inl e
            | Inr node \<Rightarrow> subscript repr node ''place_roots'') of
        Inl (KeyError k) \<Rightarrow>
          Inl (KeyError (''Missing key in plname json for type '' @ quoted kind @ '': '' @ k))
      | Inl e \<Rightarrow> Inl e
      | Inr roots \<Rightarrow>
          (case roots of
             JArr xs \<Rightarrow>
               if xs = [] then Inl (ValueError ''place_roots must be a non-empty list'')
               else Inr \<lparr>place_roots = xs\<rparr>
           | _ \<Rightarrow> Inl (ValueError ''place_roots must be a non-empty list'')))"

text \<open>
  \<open>NameData.from_json\<close> of the command-line module: both fields are read inside the
  \<open>try\<close>, then both are checked to be lists, then both to be non-empty.
\<close>

definition NameData_from_json :: "(json \<Rightarrow> string) \<Rightarrow> json \<Rightarrow> string \<Rightarrow> error + NameData" where
  "NameData_from_json repr obj kind =
     (case (case (case subscript repr obj kind of
                    Inl e \<Rightarrow> Inl e
                  | Inr node \<Rightarrow> subscript repr node ''male'') of
              Inl e \<Rightarrow> Inl e
            | Inr m \<Rightarrow>
                (case (case subscript repr obj kind of
                         Inl e \<Rightarrow> Inl e
                       | Inr node \<Rightarrow> subscript repr node ''female'') of
                   Inl e \<Rightarrow> Inl e
                 | Inr f \<Rightarrow> Inr (m, f))) of
        Inl (KeyError k) \<Rightarrow>
          Inl (KeyError (''Missing key in name json for type '' @ quoted kind @ '': '' @ k))
      | Inl e \<Rightarrow> Inl e
      | Inr (m, f) \<Rightarrow>
          (case (m, f) of
             (JArr ms, JArr fs) \<Rightarrow>
               if ms = [] \<or> fs = [] then Inl (ValueError ''male/female lists must be non-empty'')
               else Inr \<lparr>male = ms, female = fs\<rparr>
           | _ \<Rightarrow> Inl (ValueError ''male/female must be lists'')))"

text \<open>
  The GUI module's loader reads with \<open>get\<close>, so a missing tag or field arrives as \<open>None\<close>
  at the same check:
  \<^verbatim>\<open>
      roots = obj.get(kind, {}).get("place_roots")
      if not isinstance(roots, list) or not roots:
          raise ValueError(f"place_roots for type '{kind}' must be a non-empty list")
      return PlaceData(place_roots=roots)
  \<close>
\<close>

definition PlaceData_from_json_gui :: "json \<Rightarrow> string \<Rightarrow> error + PlaceData" where
  "PlaceData_from_json_gui obj kind =
     (case (case dict_get obj kind (JObj []) of
              Inl e \<Rightarrow> Inl e
            | Inr node \<Rightarrow> dict_get node ''place_roots'' JNull) of
        Inl e \<Rightarrow> Inl e
      | Inr roots \<Rightarrow>
          (case roots of
             JArr xs \<Rightarrow>
               if xs = []
               then Inl (ValueError (''place_roots for type '' @ quoted kind @
                                     '' must be a non-empty list''))
               else Inr \<lparr>place_roots = xs\<rparr>
           | _ \<Rightarrow> Inl (ValueError (''place_roots for type '' @ quoted kind @
                                    '' must be a non-empty list''))))"

definition NameData_from_json_gui :: "json \<Rightarrow> string \<Rightarrow> error + NameData" where
  "NameData_from_json_gui obj kind =
     (case dict_get obj kind (JObj []) of
        Inl e \<Rightarrow> Inl e
      | Inr node \<Rightarrow>
          (case dict_get node ''male'' JNull of
             Inl e \<Rightarrow> Inl e
           | Inr m \<Rightarrow>
               (case dict_get node ''female'' JNull of
                  Inl e \<Rightarrow> Inl e
                | Inr f \<Rightarrow>
                    (case (m, f) of
                       (JArr ms, JArr fs) \<Rightarrow>
                         if ms = [] \<or> fs = []
                         then Inl (ValueError (''male/female lists for type '' @ quoted kind @
                                               '' must be non-empty''))
                         else Inr \<lparr>male = ms, female = fs\<rparr>
                     | _ \<Rightarrow> Inl (ValueError (''male/female for type '' @ quoted kind @
                                              '' must be lists''))))))"

text \<open>
  The data directory: a path names a readable file or nothing.  A file either parses to a
  JSON value or makes \<open>json.load\<close> raise JSONDecodeError with a message.
\<close>

datatype document = Malformed string | Parsed json

type_synonym files = "string \<Rightarrow> document option"

text \<open>\<open>_load_json\<close>: the command-line module turns the decoder's error into a ValueError,
  the GUI module lets it through.\<close>

definition load_json :: "files \<Rightarrow> string \<Rightarrow> error + json" where
  "load_json fs path =
     (case fs path of
        None \<Rightarrow> Inl (FileNotFoundError (''File not found: '' @ path))
      | Some (Malformed msg) \<Rightarrow> Inl (ValueError (''Invalid JSON in '' @ path @ '': '' @ msg))
      | Some (Parsed obj) \<Rightarrow> Inr obj)"

definition load_json_gui :: "files \<Rightarrow> string \<Rightarrow> error + json" where
  "load_json_gui fs path =
     (case fs path of
        None \<Rightarrow> Inl (FileNotFoundError (''File not found: '' @ path))
      | Some (Malformed msg) \<Rightarrow> Inl (JSONDecodeError msg)
      | Some (Parsed obj) \<Rightarrow> Inr obj)"

definition load_place_data ::
  "(json \<Rightarrow> string) \<Rightarrow> files \<Rightarrow> string \<Rightarrow> string \<Rightarrow> error + PlaceData" where
  "load_place_data repr fs path kind =
     (case load_json fs path of
        Inl e \<Rightarrow> Inl e
      | Inr obj \<Rightarrow> PlaceData_from_json repr obj kind)"

definition load_name_data ::
  "(json \<Rightarrow> string) \<Rightarrow> files \<Rightarrow> string \<Rightarrow> string \<Rightarrow> error + NameData" where
  "load_name_data repr fs path kind =
     (case load_json fs path of
        Inl e \<Rightarrow> Inl e
      | Inr obj \<Rightarrow> NameData_from_json repr obj kind)"

text \<open>\<open>os.path.join(a, b)\<close> on POSIX paths.\<close>

definition path_join :: "string \<Rightarrow> string \<Rightarrow> string" where
  "path_join a b =
     (if b \<noteq> [] \<and> hd b = CHR ''/'' then b
      else if a = [] \<or> last a = CHR ''/'' then a @ b
      else a @ ''/'' @ b)"

section \<open>Bundle Generator\<close>

record GeneratorConfig =
  place_type :: string
  name_type :: string
  num_male :: int
  num_female :: int
  min_roots :: int
  max_roots :: int
  seed :: "int option"
  data_dir :: string

record NPCPlaceGenerator =
  cfg :: GeneratorConfig
  places_path :: string
  names_path :: string
  place_data :: PlaceData
  name_data :: NameData

text \<open>
  \<open>NPCPlaceGenerator.__init__\<close>.  \<open>random.seed(cfg.seed)\<close> replaces the state of the random
  source by the state the library derives from the seed; that derivation is the parameter
  \<open>seeding\<close>.  It runs first, before the documents are loaded.
\<close>

definition init ::
  "(int \<Rightarrow> rng) \<Rightarrow> (json \<Rightarrow> string) \<Rightarrow> files \<Rightarrow> GeneratorConfig \<Rightarrow> rng \<Rightarrow>
     error + (NPCPlaceGenerator \<times> rng)" where
  "init seeding repr fs c g =
     (let g1 = (case seed c of Some s \<Rightarrow> seeding s | None \<Rightarrow> g);
          pp = path_join (data_dir c) (''plname_'' @ place_type c @ ''.json'');
          np = path_join (data_dir c) (''name_'' @ name_type c @ ''.json'')
      in case load_place_data repr fs pp (place_type c) of
           Inl e \<Rightarrow> Inl e
         | Inr pd \<Rightarrow>
             (case load_name_data repr fs np (name_type c) of
                Inl e \<Rightarrow> Inl e
              | Inr nd \<Rightarrow>
                  Inr (\<lparr>cfg = c, places_path = pp, names_path = np,
                        place_data = pd, name_data = nd\<rparr>, g1)))"

text \<open>\<open>"".join(roots)\<close>: TypeError when an item is not a string.\<close>

fun join_strs :: "json list \<Rightarrow> error + string" where
  "join_strs [] = Inr []"
| "join_strs (JStr s # xs) =
     (case join_strs xs of Inl e \<Rightarrow> Inl e | Inr t \<Rightarrow> Inr (s @ t))"
| "join_strs (v # xs) = Inl (TypeError ''sequence item: expected str instance'')"

definition generate_place_name ::
  "(string \<Rightarrow> string) \<Rightarrow> NPCPlaceGenerator \<Rightarrow> rng \<Rightarrow> error + (string \<times> rng)" where
  "generate_place_name up gen g =
     (case randint (min_roots (cfg gen)) (max_roots (cfg gen)) g of
        Inl e \<Rightarrow> Inl e
      | Inr (k, g1) \<Rightarrow>
          (case sample (place_roots (place_data gen)) k g1 of
             Inl e \<Rightarrow> Inl e
           | Inr (roots, g2) \<Rightarrow>
               (case join_strs roots of
                  Inl e \<Rightarrow> Inl e
                | Inr raw \<Rightarrow>
                    (case tidy_place_name up raw of
                       Inl e \<Rightarrow> Inl e
                     | Inr v \<Rightarrow> Inr (v, g2)))))"

text \<open>
  \<open>f"{m} of {village}"\<close> shows a string as it is, and any other value a JSON document can
  hold as \<open>repr\<close> shows it.
\<close>

definition py_str :: "(json \<Rightarrow> string) \<Rightarrow> json \<Rightarrow> string" where
  "py_str repr v = (case v of JStr s \<Rightarrow> s | _ \<Rightarrow> repr v)"

record Residents =
  males_fmt :: "string list"
  females_fmt :: "string list"

record Bundle =
  village :: string
  residents :: Residents

definition generate_residents ::
  "(json \<Rightarrow> string) \<Rightarrow> NPCPlaceGenerator \<Rightarrow> string \<Rightarrow> rng \<Rightarrow> error + (Residents \<times> rng)" where
  "generate_residents repr gen v g =
     (case pick_unique (male (name_data gen)) (num_male (cfg gen)) g of
        Inl e \<Rightarrow> Inl e
      | Inr (males, g1) \<Rightarrow>
          (case pick_unique (female (name_data gen)) (num_female (cfg gen)) g1 of
             Inl e \<Rightarrow> Inl e
           | Inr (females, g2) \<Rightarrow>
               Inr (\<lparr>males_fmt = map (\<lambda>m. py_str repr m @ '' of '' @ v) males,
                     females_fmt = map (\<lambda>f. py_str repr f @ '' of '' @ v) females\<rparr>, g2)))"

definition generate_bundle ::
  "(string \<Rightarrow> string) \<Rightarrow> (json \<Rightarrow> string) \<Rightarrow> NPCPlaceGenerator \<Rightarrow> rng \<Rightarrow>
     error + (Bundle \<times> rng)" where
  "generate_bundle up repr gen g =
     (case generate_place_name up gen g of
        Inl e \<Rightarrow> Inl e
      | Inr (v, g1) \<Rightarrow>
          (case generate_residents repr gen v g1 of
             Inl e \<Rightarrow> Inl e
           | Inr (people, g2) \<Rightarrow> Inr (\<lparr>village = v, residents = people\<rparr>, g2)))"

text \<open>One complete generation call, as \<open>main\<close> makes it:
  \<open>gen = NPCPlaceGenerator(cfg); bundle = gen.generate_bundle()\<close>.\<close>

definition generation_call ::
  "(int \<Rightarrow> rng) \<Rightarrow> (string \<Rightarrow> string) \<Rightarrow> (json \<Rightarrow> string) \<Rightarrow> files \<Rightarrow> GeneratorConfig \<Rightarrow> rng \<Rightarrow>
     error + (Bundle \<times> rng)" where
  "generation_call seeding up repr fs c g =
     (case init seeding repr fs c g of
        Inl e \<Rightarrow> Inl e
      | Inr (gen, g1) \<Rightarrow> generate_bundle up repr gen g1)"

text \<open>What a caller sees of a call: the error or the value, without the random source.\<close>

definition outcome :: "error + ('a \<times> rng) \<Rightarrow> error + 'a" where
  "outcome r = (case r of Inl e \<Rightarrow> Inl e | Inr (x, g) \<Rightarrow> Inr x)"

text \<open>
  The GUI module's generator keeps the same settings as attributes, loads with its own
  loader functions, and its \<open>generate\<close> does what \<open>generate_bundle\<close> does, with the GUI
  module's picker.
\<close>

record GuiGenerator =
  settings :: GeneratorConfig
  gui_place_data :: PlaceData
  gui_name_data :: NameData

definition gui_init ::
  "(int \<Rightarrow> rng) \<Rightarrow> files \<Rightarrow> GeneratorConfig \<Rightarrow> rng \<Rightarrow> error + (GuiGenerator \<times> rng)" where
  "gui_init seeding fs c g =
     (let g1 = (case seed c of Some s \<Rightarrow> seeding s | None \<Rightarrow> g) in
      case (case load_json_gui fs (path_join (data_dir c) (''plname_'' @ place_type c @ ''.json'')) of
              Inl e \<Rightarrow> Inl e
            | Inr obj \<Rightarrow> PlaceData_from_json_gui obj (place_type c)) of
        Inl e \<Rightarrow> Inl e
      | Inr pd \<Rightarrow>
          (case (case load_json_gui fs (path_join (data_dir c) (''name_'' @ name_type c @ ''.json'')) of
                   Inl e \<Rightarrow> Inl e
                 | Inr obj \<Rightarrow> NameData_from_json_gui obj (name_type c)) of
             Inl e \<Rightarrow> Inl e
           | Inr nd \<Rightarrow> Inr (\<lparr>settings = c, gui_place_data = pd, gui_name_data = nd\<rparr>, g1)))"

definition gui_generate ::
  "(string \<Rightarrow> string) \<Rightarrow> (json \<Rightarrow> string) \<Rightarrow> GuiGenerator \<Rightarrow> rng \<Rightarrow> error + (Bundle \<times> rng)" where
  "gui_generate up repr gen g =
     (case randint (min_roots (settings gen)) (max_roots (settings gen)) g of
        Inl e \<Rightarrow> Inl e
      | Inr (k, g1) \<Rightarrow>
          (case sample (place_roots (gui_place_data gen)) k g1 of
             Inl e \<Rightarrow> Inl e
           | Inr (roots, g2) \<Rightarrow>
               (case join_strs roots of
                  Inl e \<Rightarrow> Inl e
                | Inr raw \<Rightarrow>
                    (case tidy_place_name up raw of
                       Inl e \<Rightarrow> Inl e
                     | Inr v \<Rightarrow>
                         (case pick_unique_gui (male (gui_name_data gen))
                                 (num_male (settings gen)) g2 of
                            Inl e \<Rightarrow> Inl e
                          | Inr (males, g3) \<Rightarrow>
                              (case pick_unique_gui (female (gui_name_data gen))
                                      (num_female (settings gen)) g3 of
                                 Inl e \<Rightarrow> Inl e
                               | Inr (females, g4) \<Rightarrow>
                                   Inr (\<lparr>village = v,
                                         residents =
                                           \<lparr>males_fmt = map (\<lambda>m. py_str repr m @ '' of '' @ v) males,
                                            females_fmt =
                                              map (\<lambda>f. py_str repr f @ '' of '' @ v) females\<rparr>\<rparr>,
                                        g4)))))))"

definition gui_generation_call ::
  "(int \<Rightarrow> rng) \<Rightarrow> (string \<Rightarrow> string) \<Rightarrow> (json \<Rightarrow> string) \<Rightarrow> files \<Rightarrow> GeneratorConfig \<Rightarrow> rng \<Rightarrow>
     error + (Bundle \<times> rng)" where
  "gui_generation_call seeding up repr fs c g =
     (case gui_init seeding fs c g of
        Inl e \<Rightarrow> Inl e
      | Inr (gen, g1) \<Rightarrow> gui_generate up repr gen g1)"

section \<open>The picker on list objects\<close>

text \<open>
  Python lists are objects that several names can share, and \<open>remove\<close> and \<open>append\<close> change
  the object.  To say what \<open>_pick_unique\<close> does to the list it is given, the lists live in a
  heap: \<open>cell h a\<close> is the content of the list at address \<open>a\<close>, and the addresses below
  \<open>fresh h\<close> are in use.  \<open>src[:]\<close>, \<open>list(src)\<close>, \<open>[]\<close> and the list \<open>random.sample\<close> returns
  are new objects.
\<close>

record 'a heap =
  cell :: "nat \<Rightarrow> 'a list"
  fresh :: nat

definition alloc :: "'a list \<Rightarrow> 'a heap \<Rightarrow> nat \<times> 'a heap" where
  "alloc xs h = (fresh h, \<lparr>cell = (cell h)(fresh h := xs), fresh = Suc (fresh h)\<rparr>)"

definition store :: "nat \<Rightarrow> 'a list \<Rightarrow> 'a heap \<Rightarrow> 'a heap" where
  "store a xs h = h\<lparr>cell := (cell h)(a := xs)\<rparr>"

text \<open>
  The loop of the command-line module, with \<open>src\<close>, \<open>pool\<close> and \<open>result\<close> as addresses.
  For arbitrary addresses (say \<open>pool = result\<close>) the loop need not end, so it is a partial
  function; \<open>None\<close> stands for running forever.
\<close>

partial_function (option) pick_loop_h ::
  "nat \<Rightarrow> int \<Rightarrow> nat \<Rightarrow> nat \<Rightarrow> 'a heap \<Rightarrow> rng \<Rightarrow> (error + (nat \<times> 'a heap \<times> rng)) option" where
  "pick_loop_h src n pool result h g =
     (if int (length (cell h result)) < n then
        (case (if cell h pool = [] then alloc (cell h src) h else (pool, h)) of
           (pool1, h1) \<Rightarrow>
             (case choice (cell h1 pool1) g of
                Inl e \<Rightarrow> Some (Inl e)
              | Inr (c, g') \<Rightarrow>
                  (case list_remove (cell h1 pool1) c of
                     Inl e \<Rightarrow> Some (Inl e)
                   | Inr xs \<Rightarrow>
                       (let h2 = store pool1 xs h1;
                            h3 = store result (cell h2 result @ [c]) h2
                        in pick_loop_h src n pool1 result h3 g'))))
      else Some (Inr (result, h, g)))"

definition pick_unique_h ::
  "nat \<Rightarrow> int \<Rightarrow> 'a heap \<Rightarrow> rng \<Rightarrow> (error + (nat \<times> 'a heap \<times> rng)) option" where
  "pick_unique_h src n h g =
     (if n \<le> int (length (cell h src)) then
        (case sample (cell h src) n g of
           Inl e \<Rightarrow> Some (Inl e)
         | Inr (r, g') \<Rightarrow> (case alloc r h of (a, h') \<Rightarrow> Some (Inr (a, h', g'))))
      else
        (case alloc [] h of
           (result, h1) \<Rightarrow>
             if cell h1 src \<noteq> [] then
               (case alloc (cell h1 src) h1 of
                  (pool, h2) \<Rightarrow> pick_loop_h src n pool result h2 g)
             else Some (Inr (result, h1, g))))"

text \<open>The GUI module's variant: \<open>res, pool = [], list(src)\<close>, then the loop with \<open>src\<close> in
  its condition.\<close>

partial_function (option) pick_loop_gui_h ::
  "nat \<Rightarrow> int \<Rightarrow> nat \<Rightarrow> nat \<Rightarrow> 'a heap \<Rightarrow> rng \<Rightarrow> (error + (nat \<times> 'a heap \<times> rng)) option" where
  "pick_loop_gui_h src n pool res h g =
     (if int (length (cell h res)) < n \<and> cell h src \<noteq> [] then
        (case (if cell h pool = [] then alloc (cell h src) h else (pool, h)) of
           (pool1, h1) \<Rightarrow>
             (case choice (cell h1 pool1) g of
                Inl e \<Rightarrow> Some (Inl e)
              | Inr (c, g') \<Rightarrow>
                  (case list_remove (cell h1 pool1) c of
                     Inl e \<Rightarrow> Some (Inl e)
                   | Inr xs \<Rightarrow>
                       (let h2 = store pool1 xs h1;
                            h3 = store res (cell h2 res @ [c]) h2
                        in pick_loop_gui_h src n pool1 res h3 g'))))
      else Some (Inr (res, h, g)))"

definition pick_unique_gui_h ::
  "nat \<Rightarrow> int \<Rightarrow> 'a heap \<Rightarrow> rng \<Rightarrow> (error + (nat \<times> 'a heap \<times> rng)) option" where
  "pick_unique_gui_h src n h g =
     (if n \<le> int (length (cell h src)) then
        (case sample (cell h src) n g of
           Inl e \<Rightarrow> Some (Inl e)
         | Inr (r, g') \<Rightarrow> (case alloc r h of (a, h') \<Rightarrow> Some (Inr (a, h', g'))))
      else
        (case alloc [] h of
           (res, h1) \<Rightarrow>
             (case alloc (cell h1 src) h1 of
                (pool, h2) \<Rightarrow> pick_loop_gui_h src n pool res h2 g)))"

section \<open>Concrete inputs\<close>

text \<open>A random source whose raw outputs are all zero: every bounded draw gives position 0.\<close>

definition zeros :: rng where
  "zeros = (\<lambda>i. 0)"

definition counting :: rng where
  "counting = (\<lambda>i. i)"

text \<open>
  The end-to-end scenario: four place roots, one male and one female name, seed 1, exactly
  two roots, one resident each.  \<open>demo_seeding\<close>, \<open>demo_upper\<close> and \<open>demo_repr\<close> stand in for
  the library's seeding, for the upper-case mapping outside ASCII (here: the sharp s,
  bytes C3 9F, becomes \<open>SS\<close>) and for \<open>repr\<close> (here: a string between single quotes).
\<close>

definition demo_cfg :: GeneratorConfig where
  "demo_cfg = \<lparr>place_type = ''default'', name_type = ''default'', num_male = 1, num_female = 1,
               min_roots = 2, max_roots = 2, seed = Some 1, data_dir = ''.''\<rparr>"

definition demo_files :: files where
  "demo_files path =
     (if path = ''./plname_default.json''
      then Some (Parsed (JObj [(''default'',
             JObj [(''place_roots'', JArr [JStr ''rav'', JStr ''en'', JStr ''wood'', JStr ''ford''])])]))
      else if path = ''./name_default.json''
      then Some (Parsed (JObj [(''default'',
             JObj [(''male'', JArr [JStr ''Tom'']), (''female'', JArr [JStr ''Ann''])])]))
      else None)"

definition demo_seeding :: "int \<Rightarrow> rng" where
  "demo_seeding s = (\<lambda>i. nat \<bar>s\<bar> + i)"

definition demo_upper :: "string \<Rightarrow> string" where
  "demo_upper ch = (if ch = [CHR 0xC3, CHR 0x9F] then ''SS'' else ch)"

definition demo_repr :: "json \<Rightarrow> string" where
  "demo_repr v = (case v of JStr s \<Rightarrow> quoted s | _ \<Rightarrow> ''?'')"

definition demo_gen :: NPCPlaceGenerator where
  "demo_gen = \<lparr>cfg = demo_cfg, places_path = ''./plname_default.json'',
               names_path = ''./name_default.json'',
               place_data = \<lparr>place_roots = [JStr ''rav'', JStr ''en'', JStr ''wood'', JStr ''ford'']\<rparr>,
               name_data = \<lparr>male = [JStr ''Tom''], female = [JStr ''Ann'']\<rparr>\<rparr>"

text \<open>A generator whose root list holds the same root twice.\<close>

definition dup_gen :: NPCPlaceGenerator where
  "dup_gen = demo_gen\<lparr>place_data := \<lparr>place_roots = [JStr ''a'', JStr ''a'']\<rparr>\<rparr>"




text \<open>A heap that holds one list, a two-name pool, at address 0.\<close>

definition demo_heap :: "string heap" where
  "demo_heap = \<lparr>cell = (\<lambda>a. if a = 0 then [''Tom'', ''Ann''] else []), fresh = 1\<rparr>"

section \<open>Properties of Name Tidy\<close>

lemma str_replace_nonempty:
  "s \<noteq> [] \<Longrightarrow> new \<noteq> [] \<Longrightarrow> str_replace s old new \<noteq> []"
  by (cases s) auto

lemma fold_nonempty:
  "(\<And>x t. x \<in> set xs \<Longrightarrow> t \<noteq> [] \<Longrightarrow> f x t \<noteq> []) \<Longrightarrow> s \<noteq> [] \<Longrightarrow> fold f xs s \<noteq> []"
  by (induction xs arbitrary: s) auto

lemma collapse_triples_nonempty: "raw \<noteq> [] \<Longrightarrow> collapse_triples raw \<noteq> []"
  unfolding collapse_triples_def
  by (rule fold_nonempty) (simp_all add: str_replace_nonempty)

lemma smooth_doubles_nonempty: "s \<noteq> [] \<Longrightarrow> smooth_doubles s \<noteq> []"
  unfolding smooth_doubles_def
  by (rule fold_nonempty) (auto simp: str_replace_nonempty)

lemma ascii_upper_letters:
  "map ascii_upper ''abcdefghijklmnopqrstuvwxyz'' = ''ABCDEFGHIJKLMNOPQRSTUVWXYZ''"
  by (simp add: ascii_upper_def)

lemma ascii_upper_letter:
  assumes "i < 26"
  shows "ascii_upper (''abcdefghijklmnopqrstuvwxyz'' ! i) = ''ABCDEFGHIJKLMNOPQRSTUVWXYZ'' ! i"
proof -
  from assms have "i < length ''abcdefghijklmnopqrstuvwxyz''" by simp
  then have "map ascii_upper ''abcdefghijklmnopqrstuvwxyz'' ! i =
             ascii_upper (''abcdefghijklmnopqrstuvwxyz'' ! i)" by (rule nth_map)
  then show ?thesis by (simp only: ascii_upper_letters)
qed

lemma ascii_upper_other: "c \<notin> set ''abcdefghijklmnopqrstuvwxyz'' \<Longrightarrow> ascii_upper c = c"
  by (simp add: ascii_upper_def)

lemma letter_is_ascii:
  "c \<in> set ''abcdefghijklmnopqrstuvwxyz'' \<Longrightarrow> (of_char c :: nat) < 128"
  by auto

lemma ascii_width: "(of_char c :: nat) < 128 \<Longrightarrow> utf8_width c = 1"
  by (simp add: utf8_width_def)

lemma tidy_ascii_first:
  assumes "smooth_doubles (collapse_triples raw) = c # cs" and "raw \<noteq> []"
    and "(of_char c :: nat) < 128"
  shows "tidy_place_name up raw = Inr (ascii_upper c # cs)"
  using assms by (simp add: tidy_place_name_def ascii_width py_upper_def)

text \<open>
  Claim C1.  The triple-collapse step is one \<open>replace\<close> of three copies of a letter by two,
  per letter.  A run of exactly three becomes two, so \<open>tidy("aaa")\<close> is \<open>"Aa"\<close>.  A run of four
  holds one occurrence of the triple and a leftover letter, so three letters remain:
  \<open>tidy("aaaa")\<close> is \<open>"Aaa"\<close>, not \<open>"Aa"\<close>, and \<open>"baaaab"\<close> keeps a triple.
\<close>

theorem tidy_run_of_four:
  "tidy_place_name up ''aaa'' = Inr ''Aa'' \<and> tidy_place_name up ''aaaa'' = Inr ''Aaa'' \<and>
   tidy_place_name up ''baaaab'' = Inr ''Baaab''"
  by code_simp

text \<open>
  Claim C8.  The tidy transform is not idempotent: there is an input whose tidied form
  changes when it is tidied again.  For \<open>"atttt"\<close> the first pass leaves \<open>"Att"\<close> (the triple
  collapse leaves three \<open>t\<close>, the digraph step two), and a second pass gives \<open>"At"\<close>.
\<close>

theorem tidy_not_idempotent:
  "\<exists>x y. tidy_place_name up x = Inr y \<and> tidy_place_name up y \<noteq> Inr y"
proof (intro exI conjI)
  show "tidy_place_name up ''atttt'' = Inr ''Att''" by code_simp
  show "tidy_place_name up ''Att'' \<noteq> Inr ''Att''" by code_simp
qed

text \<open>Outside ASCII the first character can grow: with the sharp s going to \<open>SS\<close>, the
  string of the sharp s and \<open>a\<close> becomes \<open>SSa\<close>.\<close>

lemma tidy_sharp_s:
  "tidy_place_name demo_upper [CHR 0xC3, CHR 0x9F, CHR ''a''] = Inr ''SSa''"
  by code_simp

text \<open>
  Claim C9.  The tidy transform never raises, for any string.  The empty string is
  returned unchanged.  For a non-empty input the string left by the two replacement loops
  is non-empty, so \<open>out[0]\<close> exists, and the result is that string with its first character
  upper-cased and the rest as the loops left it: a first character \<open>a..z\<close> becomes the
  matching letter of \<open>A..Z\<close>, any other ASCII character stays as it is, and a character
  outside ASCII is replaced by what the interpreter's upper-case mapping \<open>up\<close> gives for
  it.  The result is non-empty, since that mapping never gives an empty string.
\<close>

theorem tidy_total:
  "tidy_place_name up [] = Inr [] \<and>
   (raw \<noteq> [] \<longrightarrow>
      (\<exists>c cs. smooth_doubles (collapse_triples raw) = c # cs \<and>
         (\<forall>i<26. c = ''abcdefghijklmnopqrstuvwxyz'' ! i \<longrightarrow>
             tidy_place_name up raw = Inr (''ABCDEFGHIJKLMNOPQRSTUVWXYZ'' ! i # cs)) \<and>
         ((of_char c :: nat) < 128 \<and> c \<notin> set ''abcdefghijklmnopqrstuvwxyz'' \<longrightarrow>
             tidy_place_name up raw = Inr (c # cs)) \<and>
         (\<forall>w. 128 \<le> (of_char c :: nat) \<and>
              w = (if (of_char c :: nat) < 0xC0 then 1 else if (of_char c :: nat) < 0xE0 then 2
                   else if (of_char c :: nat) < 0xF0 then 3 else 4) \<longrightarrow>
             tidy_place_name up raw = Inr (up (take w (c # cs)) @ drop w (c # cs))) \<and>
         (\<exists>s. tidy_place_name up raw = Inr s \<and> ((\<forall>ch. ch \<noteq> [] \<longrightarrow> up ch \<noteq> []) \<longrightarrow> s \<noteq> []))))"
proof (intro conjI impI)
  show "tidy_place_name up [] = Inr []" by (simp add: tidy_place_name_def)
next
  assume ne: "raw \<noteq> []"
  then have "smooth_doubles (collapse_triples raw) \<noteq> []"
    by (simp add: smooth_doubles_nonempty collapse_triples_nonempty)
  then obtain c cs where out: "smooth_doubles (collapse_triples raw) = c # cs"
    by (auto simp: neq_Nil_conv)
  have letters: "tidy_place_name up raw = Inr (''ABCDEFGHIJKLMNOPQRSTUVWXYZ'' ! i # cs)"
    if "i < 26" and "c = ''abcdefghijklmnopqrstuvwxyz'' ! i" for i
  proof -
    from that have "c \<in> set ''abcdefghijklmnopqrstuvwxyz''"
      using that(1) unfolding that(2) by (intro nth_mem) simp
    then have "(of_char c :: nat) < 128" by (rule letter_is_ascii)
    from tidy_ascii_first [OF out ne this, of up] ascii_upper_letter [OF that(1)] that(2)
    show ?thesis by simp
  qed
  have other: "tidy_place_name up raw = Inr (c # cs)"
    if "(of_char c :: nat) < 128 \<and> c \<notin> set ''abcdefghijklmnopqrstuvwxyz''"
    using tidy_ascii_first [OF out ne, of up] that ascii_upper_other [of c] by simp
  have wide: "tidy_place_name up raw =
                Inr (up (take (utf8_width c) (c # cs)) @ drop (utf8_width c) (c # cs))"
    if "128 \<le> (of_char c :: nat)"
  proof -
    have "py_upper up (take (utf8_width c) (c # cs)) = up (take (utf8_width c) (c # cs))"
      using that by (cases "take (utf8_width c) (c # cs)")
        (auto simp: py_upper_def utf8_width_def split: list.splits if_splits)
    with out ne show ?thesis by (simp add: tidy_place_name_def)
  qed
  have width: "utf8_width c =
      (if (of_char c :: nat) < 0xC0 then 1 else if (of_char c :: nat) < 0xE0 then 2
       else if (of_char c :: nat) < 0xF0 then 3 else 4)"
    by (simp add: utf8_width_def)
  have wide': "\<forall>w. 128 \<le> (of_char c :: nat) \<and>
              w = (if (of_char c :: nat) < 0xC0 then 1 else if (of_char c :: nat) < 0xE0 then 2
                   else if (of_char c :: nat) < 0xF0 then 3 else 4) \<longrightarrow>
             tidy_place_name up raw = Inr (up (take w (c # cs)) @ drop w (c # cs))"
    using wide by (simp only: width [symmetric]) blast
  have first_ne: "take (utf8_width c) (c # cs) \<noteq> []" by (simp add: utf8_width_def)
  have ret: "\<exists>s. tidy_place_name up raw = Inr s \<and> ((\<forall>ch. ch \<noteq> [] \<longrightarrow> up ch \<noteq> []) \<longrightarrow> s \<noteq> [])"
  proof (cases "(of_char c :: nat) < 128")
    case True
    from tidy_ascii_first [OF out ne True, of up] show ?thesis by simp
  next
    case False
    then have "128 \<le> (of_char c :: nat)" by simp
    from wide [OF this] first_ne show ?thesis by simp
  qed
  from out letters other wide' ret
  show "\<exists>c cs. smooth_doubles (collapse_triples raw) = c # cs \<and>
         (\<forall>i<26. c = ''abcdefghijklmnopqrstuvwxyz'' ! i \<longrightarrow>
             tidy_place_name up raw = Inr (''ABCDEFGHIJKLMNOPQRSTUVWXYZ'' ! i # cs)) \<and>
         ((of_char c :: nat) < 128 \<and> c \<notin> set ''abcdefghijklmnopqrstuvwxyz'' \<longrightarrow>
             tidy_place_name up raw = Inr (c # cs)) \<and>
         (\<forall>w. 128 \<le> (of_char c :: nat) \<and>
              w = (if (of_char c :: nat) < 0xC0 then 1 else if (of_char c :: nat) < 0xE0 then 2
                   else if (of_char c :: nat) < 0xF0 then 3 else 4) \<longrightarrow>
             tidy_place_name up raw = Inr (up (take w (c # cs)) @ drop w (c # cs))) \<and>
         (\<exists>s. tidy_place_name up raw = Inr s \<and> ((\<forall>ch. ch \<noteq> [] \<longrightarrow> up ch \<noteq> []) \<longrightarrow> s \<noteq> []))"
    by blast
qed

theorem tidy_total_witness:
  "''bob'' \<noteq> [] \<and> tidy_place_name demo_upper ''bob'' = Inr ''Bob'' \<and>
   tidy_place_name demo_upper ''7up'' = Inr ''7up'' \<and>
   tidy_place_name demo_upper [CHR 0xC3, CHR 0x9F, CHR ''a''] = Inr ''SSa''"
proof -
  have ne: "''bob'' \<noteq> ([]::string)" "''7up'' \<noteq> ([]::string)"
    "[CHR 0xC3, CHR 0x9F, CHR ''a''] \<noteq> ([]::string)" by simp_all
  have o1: "smooth_doubles (collapse_triples ''bob'') = ''bob''" by code_simp
  have o2: "smooth_doubles (collapse_triples ''7up'') = ''7up''" by code_simp
  have o3: "smooth_doubles (collapse_triples [CHR 0xC3, CHR 0x9F, CHR ''a'']) =
            [CHR 0xC3, CHR 0x9F, CHR ''a'']" by code_simp
  from tidy_total [of demo_upper "''bob''"] ne(1) obtain c cs
    where out: "smooth_doubles (collapse_triples ''bob'') = c # cs"
      and L: "\<forall>i<26. c = ''abcdefghijklmnopqrstuvwxyz'' ! i \<longrightarrow>
             tidy_place_name demo_upper ''bob'' = Inr (''ABCDEFGHIJKLMNOPQRSTUVWXYZ'' ! i # cs)"
    by blast
  from out [unfolded o1] have c: "c = CHR ''b''" "cs = ''ob''" by auto
  have "(1::nat) < 26" by simp
  from L [rule_format, OF this] c have 1: "tidy_place_name demo_upper ''bob'' = Inr ''Bob''"
    by simp
  from tidy_total [of demo_upper "''7up''"] ne(2) obtain c cs
    where "smooth_doubles (collapse_triples ''7up'') = c # cs"
      and "(of_char c :: nat) < 128 \<and> c \<notin> set ''abcdefghijklmnopqrstuvwxyz'' \<longrightarrow>
             tidy_place_name demo_upper ''7up'' = Inr (c # cs)"
    by blast
  with o2 have 2: "tidy_place_name demo_upper ''7up'' = Inr ''7up''" by simp
  from tidy_total [of demo_upper "[CHR 0xC3, CHR 0x9F, CHR ''a'']"] ne(3) obtain c cs
    where out3: "smooth_doubles (collapse_triples [CHR 0xC3, CHR 0x9F, CHR ''a'']) = c # cs"
      and W: "\<forall>w. 128 \<le> (of_char c :: nat) \<and>
              w = (if (of_char c :: nat) < 0xC0 then 1 else if (of_char c :: nat) < 0xE0 then 2
                   else if (of_char c :: nat) < 0xF0 then 3 else 4) \<longrightarrow>
             tidy_place_name demo_upper [CHR 0xC3, CHR 0x9F, CHR ''a''] =
               Inr (demo_upper (take w (c # cs)) @ drop w (c # cs))"
    by blast
  from out3 [unfolded o3] have c3: "c = CHR 0xC3" "cs = [CHR 0x9F, CHR ''a'']" by auto
  from W [rule_format, of 2] c3
  have 3: "tidy_place_name demo_upper [CHR 0xC3, CHR 0x9F, CHR ''a''] = Inr ''SSa''"
    by (simp add: demo_upper_def)
  from 1 2 3 ne(1) show ?thesis by simp
qed

section \<open>Properties of the Unique Picker\<close>

declare pick_loop.simps [simp del] pick_loop_gui.simps [simp del]

lemma randbelow_less: "0 < n \<Longrightarrow> fst (randbelow n g) < n"
  by (simp add: randbelow_def)

lemma mset_drop_nth:
  "j < length pool \<Longrightarrow> add_mset (pool ! j) (mset (take j pool @ drop (Suc j) pool)) = mset pool"
proof -
  assume "j < length pool"
  then have "pool = take j pool @ pool ! j # drop (Suc j) pool" by (rule id_take_nth_drop)
  then have "mset pool = mset (take j pool @ pool ! j # drop (Suc j) pool)" by simp
  then show ?thesis by simp
qed

lemma sample_draw_props:
  "k \<le> length pool \<Longrightarrow>
   length (fst (sample_draw pool k g)) = k \<and> mset (fst (sample_draw pool k g)) \<subseteq># mset pool"
proof (induction k arbitrary: pool g)
  case 0
  then show ?case by simp
next
  case (Suc k)
  then have ne: "pool \<noteq> []" by auto
  obtain j g' where rb: "randbelow (length pool) g = (j, g')" by (cases "randbelow (length pool) g")
  with randbelow_less [of "length pool" g] ne have j: "j < length pool" by simp
  let ?rest = "take j pool @ drop (Suc j) pool"
  from j Suc.prems have "k \<le> length ?rest" by simp
  from Suc.IH [OF this, of g']
  have len: "length (fst (sample_draw ?rest k g')) = k"
    and sub: "mset (fst (sample_draw ?rest k g')) \<subseteq># mset ?rest" by simp_all
  obtain rest g'' where sd: "sample_draw ?rest k g' = (rest, g'')" by (cases "sample_draw ?rest k g'")
  from ne rb sd have eq: "fst (sample_draw pool (Suc k) g) = pool ! j # rest" by simp
  from sub sd have "add_mset (pool ! j) (mset rest) \<subseteq># add_mset (pool ! j) (mset ?rest)" by simp
  with mset_drop_nth [OF j] have "mset (pool ! j # rest) \<subseteq># mset pool" by simp
  with eq len sd show ?case by simp
qed

lemma sub_mset_distinct:
  "mset r \<subseteq># mset p \<Longrightarrow> distinct p \<Longrightarrow> distinct r"
proof -
  assume sub: "mset r \<subseteq># mset p" and d: "distinct p"
  have le1: "count (mset r) a \<le> 1" for a
  proof -
    have "count (mset r) a \<le> count (mset p) a" using sub by (rule mset_subset_eq_count)
    also have "\<dots> \<le> 1" using d by (simp add: distinct_count_atmost_1)
    finally show ?thesis .
  qed
  have "count (mset r) a = (if a \<in> set r then 1 else 0)" for a
  proof (cases "a \<in> set r")
    case True
    then have "a \<in># mset r" by simp
    then have "0 < count (mset r) a" by (simp only: count_greater_zero_iff)
    with le1 [of a] have "count (mset r) a = 1" by linarith
    with True show ?thesis by simp
  next
    case False
    then have "a \<notin># mset r" by simp
    then have "count (mset r) a = 0" by (simp only: count_eq_zero_iff not_False_eq_True)
    with False show ?thesis by simp
  qed
  then show ?thesis by (simp only: distinct_count_atmost_1) simp
qed

lemma choice_nonempty:
  "seq \<noteq> [] \<Longrightarrow> \<exists>j<length seq. choice seq g = Inr (seq ! j, \<lambda>i. g (Suc i))"
  by (rule exI [of _ "g 0 mod length seq"]) (simp add: choice_def randbelow_def)

lemma pick_loop_done:
  "\<not> int (length result) < n \<Longrightarrow> pick_loop src n pool result g = Inr (result, g)"
  by (simp add: pick_loop.simps)

lemma pick_loop_step:
  assumes "int (length result) < n" and "src \<noteq> []"
  shows "\<exists>c. c \<in> set (if pool = [] then src else pool) \<and>
             pick_loop src n pool result g =
             pick_loop src n (remove1 c (if pool = [] then src else pool)) (result @ [c])
               (\<lambda>i. g (Suc i))"
proof -
  let ?pool1 = "if pool = [] then src else pool"
  from assms have "?pool1 \<noteq> []" by simp
  from choice_nonempty [OF this, of g] obtain j
    where j: "j < length ?pool1" and ch: "choice ?pool1 g = Inr (?pool1 ! j, \<lambda>i. g (Suc i))"
    by blast
  from j have mem: "?pool1 ! j \<in> set ?pool1" by (rule nth_mem)
  then have rm: "list_remove ?pool1 (?pool1 ! j) = Inr (remove1 (?pool1 ! j) ?pool1)"
    by (simp add: list_remove_def)
  have "pick_loop src n pool result g =
        pick_loop src n (remove1 (?pool1 ! j) ?pool1) (result @ [?pool1 ! j]) (\<lambda>i. g (Suc i))"
    using assms(1) ch rm by (subst pick_loop.simps) (simp add: Let_def)
  with mem show ?thesis by blast
qed

lemma pick_loop_rounds:
  assumes "src \<noteq> []"
    and "mset pool \<subseteq># mset src"
    and "mset result + mset pool = repeat_mset (Suc q) (mset src)"
    and "int (length result) \<le> n"
    and "k = nat (n - int (length result))"
  shows "\<exists>r g' pool' q'. pick_loop src n pool result g = Inr (r, g') \<and> int (length r) = n \<and>
           mset pool' \<subseteq># mset src \<and>
           mset r + mset pool' = repeat_mset (Suc q') (mset src)"
  using assms
proof (induction k arbitrary: pool result q g)
  case 0
  then have "\<not> int (length result) < n" by simp
  then have "pick_loop src n pool result g = Inr (result, g)" by (rule pick_loop_done)
  moreover from 0 have "int (length result) = n" by simp
  ultimately show ?case using 0(2,3) by blast
next
  case (Suc k)
  then have lt: "int (length result) < n" by simp
  let ?pool1 = "if pool = [] then src else pool"
  from pick_loop_step [OF lt Suc.prems(1), of pool g] obtain c
    where c: "c \<in> set ?pool1"
      and step: "pick_loop src n pool result g =
                 pick_loop src n (remove1 c ?pool1) (result @ [c]) (\<lambda>i. g (Suc i))"
    by blast
  have sub1: "mset ?pool1 \<subseteq># mset src" using Suc.prems(2) by simp
  have sub2: "mset (remove1 c ?pool1) \<subseteq># mset src"
    using sub1 by (simp add: subset_mset.diff_add_assoc2 diff_subset_eq_self subset_mset.order_trans [OF diff_subset_eq_self])
  have sum1: "mset result + mset ?pool1 = repeat_mset (Suc (if pool = [] then Suc q else q)) (mset src)"
    using Suc.prems(3) by (cases "pool = []") auto
  have "mset (result @ [c]) + mset (remove1 c ?pool1) = mset result + mset ?pool1"
    using c by simp
  with sum1 have sum2: "mset (result @ [c]) + mset (remove1 c ?pool1) =
      repeat_mset (Suc (if pool = [] then Suc q else q)) (mset src)" by simp
  have len: "int (length (result @ [c])) \<le> n" using lt by simp
  have k: "k = nat (n - int (length (result @ [c])))" using Suc.prems(5) by simp
  from Suc.IH [OF Suc.prems(1) sub2 sum2 len k, of "\<lambda>i. g (Suc i)"] step
  show ?case by simp
qed

lemma pick_loop_gui_eq:
  "src \<noteq> [] \<Longrightarrow> k = nat (n - int (length res)) \<Longrightarrow>
   pick_loop_gui src n pool res g = pick_loop src n pool res g"
proof (induction k arbitrary: pool res g)
  case 0
  then show ?case by (simp add: pick_loop.simps pick_loop_gui.simps)
next
  case (Suc k)
  then have lt: "int (length res) < n" by simp
  have IH: "pick_loop_gui src n pool' (res @ [c]) g' = pick_loop src n pool' (res @ [c]) g'"
    for pool' c g'
    using Suc.prems by (intro Suc.IH) simp_all
  show ?case
    by (subst pick_loop_gui.simps, subst pick_loop.simps)
       (simp add: Let_def IH Suc.prems(1) lt split: sum.splits prod.splits)
qed

lemma pick_unique_gui_eq: "pick_unique_gui src n g = pick_unique src n g"
proof (cases "src = []")
  case True
  then show ?thesis
    by (simp add: pick_unique_gui_def pick_unique_def pick_loop_gui.simps)
next
  case False
  then show ?thesis
    by (simp add: pick_unique_gui_def pick_unique_def pick_loop_gui_eq)
qed

lemma pick_unique_empty: "0 < n \<Longrightarrow> pick_unique [] n g = Inr ([], g)"
  by (simp add: pick_unique_def)

lemma pick_unique_rounds:
  assumes "src \<noteq> []" and "int (length src) < n"
  shows "\<exists>r g' pool' q. pick_unique src n g = Inr (r, g') \<and> int (length r) = n \<and>
           mset pool' \<subseteq># mset src \<and>
           mset r + mset pool' = repeat_mset (Suc q) (mset src)"
proof -
  have "mset ([]::'a list) + mset src = repeat_mset (Suc 0) (mset src)" by simp
  moreover have "int (length ([]::'a list)) \<le> n" using assms(2) by simp
  ultimately have "\<exists>r g' pool' q'. pick_loop src n src [] g = Inr (r, g') \<and> int (length r) = n \<and>
           mset pool' \<subseteq># mset src \<and>
           mset r + mset pool' = repeat_mset (Suc q') (mset src)"
    using assms(1) by (intro pick_loop_rounds [where q = 0 and k = "nat n"]) simp_all
  with assms show ?thesis by (simp add: pick_unique_def)
qed

lemma balanced_counts:
  assumes d: "distinct src" and ne: "src \<noteq> []"
    and sub: "mset pool' \<subseteq># mset src"
    and sum: "mset r + mset pool' = repeat_mset (Suc q) (mset src)"
    and x: "x \<in> set src"
  shows "length r div length src \<le> count_list r x \<and> q \<le> count_list r x \<and> count_list r x \<le> Suc q"
proof -
  have cs: "count (mset src) x = 1" using d x by (simp add: distinct_count_atmost_1)
  have "count (mset r + mset pool') x = Suc q * count (mset src) x"
    by (simp only: sum count_repeat_mset)
  with cs have cnt: "count_list r x + count_list pool' x = Suc q" by (simp add: count_mset)
  have "count (mset pool') x \<le> count (mset src) x" using sub by (rule mset_subset_eq_count)
  with cs have p1: "count_list pool' x \<le> 1" by (simp add: count_mset)
  have "size (mset r + mset pool') = Suc q * size (mset src)"
    by (simp only: sum size_repeat_mset)
  then have len: "length r + length pool' = Suc q * length src" by simp
  have L: "0 < length src" using ne by simp
  have "length r div length src \<le> count_list r x"
  proof (cases "count_list pool' x = 0")
    case True
    with cnt have "count_list r x = Suc q" by simp
    moreover from len have "length r \<le> Suc q * length src" by linarith
    then have "length r div length src \<le> Suc q"
      using L by (metis div_le_mono div_mult_self_is_m)
    ultimately show ?thesis by simp
  next
    case False
    with p1 cnt have c: "count_list r x = q" by simp
    from False have "x \<in> set pool'" by (metis count_list_0_iff)
    then have "0 < length pool'" by (cases pool') auto
    with len have "length r < Suc q * length src" by linarith
    then have "length r div length src < Suc q"
      using L by (simp only: div_less_iff_less_mult)
    with c show ?thesis by simp
  qed
  with cnt p1 show ?thesis by linarith
qed

lemma sample_props:
  assumes "0 \<le> n" and "n \<le> int (length src)"
  shows "\<exists>r g'. sample src n g = Inr (r, g') \<and> int (length r) = n \<and> mset r \<subseteq># mset src"
proof -
  from assms have k: "nat n \<le> length src" by simp
  obtain r g' where sd: "sample_draw src (nat n) g = (r, g')" by (cases "sample_draw src (nat n) g")
  with sample_draw_props [OF k, of g] have "length r = nat n" and "mset r \<subseteq># mset src" by simp_all
  with assms sd show ?thesis by (simp add: sample_def)
qed

text \<open>
  Claim C5, amended.  For \<open>0 \<le> n \<le> |pool|\<close> both pickers return the library's sample:
  a sequence of length exactly \<open>n\<close>, drawn from the pool at pairwise different positions
  (as a multiset it is contained in the pool), hence with pairwise distinct elements when
  the pool has no repeated element; \<open>n = 0\<close> gives the empty sequence.
\<close>

theorem pick_unique_within_pool:
  assumes "0 \<le> n" and "n \<le> int (length src)"
  shows "\<exists>r g'. pick_unique src n g = Inr (r, g') \<and> pick_unique_gui src n g = Inr (r, g') \<and>
           int (length r) = n \<and> mset r \<subseteq># mset src \<and> set r \<subseteq> set src \<and>
           (distinct src \<longrightarrow> distinct r) \<and> (n = 0 \<longrightarrow> r = [])"
proof -
  from sample_props [OF assms, of g] obtain r g'
    where s: "sample src n g = Inr (r, g')" and len: "int (length r) = n"
      and sub: "mset r \<subseteq># mset src" by blast
  from s assms(2) have "pick_unique src n g = Inr (r, g')" by (simp add: pick_unique_def)
  moreover from this have "pick_unique_gui src n g = Inr (r, g')" by (simp add: pick_unique_gui_eq)
  moreover from sub have "set r \<subseteq> set src" by (rule set_mset_mono [simplified, of "mset r" "mset src", simplified])
  moreover from sub have "distinct src \<longrightarrow> distinct r" by (blast intro: sub_mset_distinct)
  moreover from len have "n = 0 \<longrightarrow> r = []" by auto
  ultimately show ?thesis using len sub by blast
qed

theorem pick_unique_within_pool_witness:
  "(0::int) \<le> 2 \<and> 2 \<le> int (length [''Tom'', ''Ann'', ''Bob'']) \<and>
   (\<exists>r g'. pick_unique [''Tom'', ''Ann'', ''Bob''] 2 zeros = Inr (r, g') \<and> length r = 2 \<and> distinct r)"
proof -
  have d: "distinct [''Tom'', ''Ann'', ''Bob'']" by simp
  from pick_unique_within_pool [of 2 "[''Tom'', ''Ann'', ''Bob'']" zeros] d
  show ?thesis by fastforce
qed

text \<open>The claim as stated fails for a pool that repeats an element: both copies can be
  drawn, and the result is not pairwise distinct.\<close>

theorem pick_unique_repeats_counterexample:
  "outcome (pick_unique [''a'', ''a''] 2 zeros) = Inr [''a'', ''a''] \<and> \<not> distinct [''a'', ''a'']"
  by code_simp

lemma rounds_subset:
  assumes "mset r + mset pool' = repeat_mset (Suc q) (mset src)"
  shows "set r \<subseteq> set src"
proof
  fix x assume "x \<in> set r"
  then have "x \<in># mset r + mset pool'" by simp
  then have "x \<in># repeat_mset (Suc q) (mset src)" by (simp only: assms)
  then have "0 < count (repeat_mset (Suc q) (mset src)) x" by (simp only: count_greater_zero_iff)
  then have "0 < Suc q * count (mset src) x" by (simp only: count_repeat_mset)
  then show "x \<in> set src" by auto
qed

lemma round_counts:
  assumes sub: "mset pool' \<subseteq># mset src"
    and sum: "mset r + mset pool' = repeat_mset (Suc q) (mset src)"
  shows "q * count_list src x \<le> count_list r x \<and> count_list r x \<le> Suc q * count_list src x"
proof -
  have "count (mset r + mset pool') x = Suc q * count (mset src) x"
    by (simp only: sum count_repeat_mset)
  then have cnt: "count_list r x + count_list pool' x = count_list src x + q * count_list src x"
    by (simp add: count_mset)
  have "count (mset pool') x \<le> count (mset src) x" using sub by (rule mset_subset_eq_count)
  then have "count_list pool' x \<le> count_list src x" by (simp add: count_mset)
  with cnt show ?thesis by simp
qed

lemma round_floor:
  assumes ne: "src \<noteq> []"
    and sub: "mset pool' \<subseteq># mset src"
    and sum: "mset r + mset pool' = repeat_mset (Suc q) (mset src)"
    and x: "x \<in> set src"
  shows "length r div length src \<le> count_list r x"
proof -
  have c1: "1 \<le> count_list src x" using x by (metis count_list_0_iff less_one linorder_not_le)
  then have qc: "q \<le> q * count_list src x" by simp
  note rc = round_counts [OF sub sum, of x]
  have "size (mset r + mset pool') = Suc q * size (mset src)"
    by (simp only: sum size_repeat_mset)
  then have len: "length r + length pool' = Suc q * length src" by simp
  have L: "0 < length src" using ne by simp
  show ?thesis
  proof (cases "pool' = []")
    case True
    with sum have "mset r = repeat_mset (Suc q) (mset src)" by simp
    then have "count (mset r) x = Suc q * count (mset src) x" by (simp only: count_repeat_mset)
    then have "count_list r x = count_list src x + q * count_list src x" by (simp add: count_mset)
    with c1 qc have "Suc q \<le> count_list r x" by linarith
    moreover from len True have "length r div length src = Suc q" using L by simp
    ultimately show ?thesis by simp
  next
    case False
    then have "0 < length pool'" by simp
    with len have "length r < Suc q * length src" by linarith
    then have "length r div length src < Suc q" using L by (simp only: div_less_iff_less_mult)
    with qc rc show ?thesis by linarith
  qed
qed

text \<open>
  Claim C2, amended.  For \<open>n > |pool|\<close> both pickers agree; an empty pool gives the empty
  sequence; a non-empty pool gives a sequence of length exactly \<open>n\<close> over the pool in which
  every pool element occurs at least \<open>floor(n / |pool|)\<close> times.  There is a number \<open>q\<close> of
  completed rounds such that every element occurs between \<open>q\<close> and \<open>q + 1\<close> times as often
  as the pool holds it; so when the pool has no repeated element, the counts of any two
  pool elements differ by at most one.
\<close>

theorem pick_unique_balanced_reuse:
  assumes "int (length src) < n"
  shows "pick_unique_gui src n g = pick_unique src n g \<and>
         (src = [] \<longrightarrow> pick_unique src n g = Inr ([], g)) \<and>
         (src \<noteq> [] \<longrightarrow>
            (\<exists>r g' q. pick_unique src n g = Inr (r, g') \<and> int (length r) = n \<and> set r \<subseteq> set src \<and>
                (\<forall>x\<in>set src. n div int (length src) \<le> int (count_list r x)) \<and>
                (\<forall>x. q * count_list src x \<le> count_list r x \<and>
                     count_list r x \<le> Suc q * count_list src x) \<and>
                (distinct src \<longrightarrow>
                   (\<forall>x\<in>set src. \<forall>y\<in>set src. count_list r x \<le> count_list r y + 1))))"
proof (intro conjI impI)
  show "pick_unique_gui src n g = pick_unique src n g" by (rule pick_unique_gui_eq)
next
  assume "src = []"
  with assms show "pick_unique src n g = Inr ([], g)" by (simp add: pick_unique_def)
next
  assume ne: "src \<noteq> []"
  from pick_unique_rounds [OF ne assms, of g] obtain r g' pool' q
    where p: "pick_unique src n g = Inr (r, g')" and len: "int (length r) = n"
      and sub: "mset pool' \<subseteq># mset src"
      and sum: "mset r + mset pool' = repeat_mset (Suc q) (mset src)" by blast
  have fl: "n div int (length src) \<le> int (count_list r x)" if "x \<in> set src" for x
  proof -
    have "n div int (length src) = int (length r div length src)"
      by (simp only: len [symmetric] zdiv_int)
    with round_floor [OF ne sub sum that] show ?thesis by simp
  qed
  have rc: "\<forall>x. q * count_list src x \<le> count_list r x \<and>
                count_list r x \<le> Suc q * count_list src x"
    using round_counts [OF sub sum] by blast
  have sp: "count_list r x \<le> count_list r y + 1"
    if "distinct src" "x \<in> set src" "y \<in> set src" for x y
    using balanced_counts [OF that(1) ne sub sum that(2)]
      balanced_counts [OF that(1) ne sub sum that(3)] by linarith
  have ss: "set r \<subseteq> set src" using sum by (rule rounds_subset)
  from p len ss fl rc sp
  show "\<exists>r g' q. pick_unique src n g = Inr (r, g') \<and> int (length r) = n \<and> set r \<subseteq> set src \<and>
                (\<forall>x\<in>set src. n div int (length src) \<le> int (count_list r x)) \<and>
                (\<forall>x. q * count_list src x \<le> count_list r x \<and>
                     count_list r x \<le> Suc q * count_list src x) \<and>
                (distinct src \<longrightarrow>
                   (\<forall>x\<in>set src. \<forall>y\<in>set src. count_list r x \<le> count_list r y + 1))"
    by blast
qed

theorem pick_unique_balanced_reuse_witness:
  "int (length [''Tom'', ''Ann'']) < 5 \<and> distinct [''Tom'', ''Ann''] \<and>
   (\<exists>r g'. pick_unique [''Tom'', ''Ann''] 5 zeros = Inr (r, g') \<and> length r = 5 \<and>
      2 \<le> count_list r ''Tom'' \<and> 2 \<le> count_list r ''Ann'' \<and>
      count_list r ''Tom'' \<le> count_list r ''Ann'' + 1)"
proof -
  have d: "distinct [''Tom'', ''Ann'']" by simp
  have l: "int (length [''Tom'', ''Ann'']) < 5" by simp
  from pick_unique_balanced_reuse [OF l, of zeros] d obtain r g'
    where "pick_unique [''Tom'', ''Ann''] 5 zeros = Inr (r, g')" and "int (length r) = 5"
      and "\<forall>x\<in>set [''Tom'', ''Ann'']. 5 div int (length [''Tom'', ''Ann'']) \<le> int (count_list r x)"
      and "\<forall>x\<in>set [''Tom'', ''Ann'']. \<forall>y\<in>set [''Tom'', ''Ann''].
             count_list r x \<le> count_list r y + 1"
    by auto
  then show ?thesis using d by auto
qed

text \<open>The claim as stated fails for a pool that repeats an element: the repeated element
  is drawn once per copy in each round, so counts can differ by more than one.\<close>

theorem pick_unique_unbalanced_counterexample:
  "outcome (pick_unique [''a'', ''a'', ''b''] 4 zeros) = Inr [''a'', ''a'', ''b'', ''a''] \<and>
   count_list [''a'', ''a'', ''b'', ''a''] ''a'' = 3 \<and>
   count_list [''a'', ''a'', ''b'', ''a''] ''b'' = 1"
  by code_simp

section \<open>Properties of the Data Loader and the Bundle Generator\<close>

text \<open>
  Claim C3.  With a seed in the configuration the constructor seeds the random source
  before anything is drawn, so a complete generation call (construct, load, generate) no
  longer depends on the state the random source was in: two calls with the same
  configuration and the same data files give the same result, bundle or error, in both
  modules.
\<close>

theorem seeded_call_deterministic:
  assumes "seed c = Some s"
  shows "generation_call seeding up repr fs c g1 = generation_call seeding up repr fs c g2 \<and>
         gui_generation_call seeding up repr fs c g1 = gui_generation_call seeding up repr fs c g2"
  using assms by (simp add: generation_call_def init_def gui_generation_call_def gui_init_def)

theorem seeded_call_deterministic_witness:
  "seed demo_cfg = Some 1 \<and>
   outcome (generation_call demo_seeding demo_upper demo_repr demo_files demo_cfg counting) =
   Inr \<lparr>village = ''Woodrav'',
        residents = \<lparr>males_fmt = [''Tom of Woodrav''], females_fmt = [''Ann of Woodrav'']\<rparr>\<rparr>"
proof -
  have s: "seed demo_cfg = Some 1" by (simp add: demo_cfg_def)
  have "outcome (generation_call demo_seeding demo_upper demo_repr demo_files demo_cfg zeros) =
        Inr \<lparr>village = ''Woodrav'',
             residents = \<lparr>males_fmt = [''Tom of Woodrav''], females_fmt = [''Ann of Woodrav'']\<rparr>\<rparr>"
    by code_simp
  with seeded_call_deterministic [OF s, of demo_seeding demo_upper demo_repr demo_files counting zeros] s
  show ?thesis by simp
qed



















lemma randint_range:
  assumes "a \<le> b"
  shows "\<exists>k g1. randint a b g = Inr (k, g1) \<and> a \<le> k \<and> k \<le> b"
proof -
  have "0 < nat (b - a + 1)" using assms by simp
  then have "g 0 mod nat (b - a + 1) < nat (b - a + 1)" by (rule mod_less_divisor)
  then have "a + int (g 0 mod nat (b - a + 1)) \<le> b" by linarith
  with assms show ?thesis by (simp add: randint_def randbelow_def)
qed

lemma randint_empty: "b < a \<Longrightarrow> randint a b g = Inl (ValueError ''empty range for randrange()'')"
  by (simp add: randint_def)

lemma sample_too_large:
  "int (length pool) < k \<Longrightarrow>
   sample pool k g = Inl (ValueError ''Sample larger than population or is negative'')"
  by (simp add: sample_def)







lemma randint_error:
  "b < a \<Longrightarrow> \<exists>e. randint a b g = Inl e \<and> is_ValueError e \<and> message e \<noteq> []"
  by (simp add: randint_def)

lemma sample_error:
  "int (length pool) < k \<Longrightarrow> \<exists>e. sample pool k g = Inl e \<and> is_ValueError e \<and> message e \<noteq> []"
  by (simp add: sample_def)



text \<open>
  Claim C6, amended.  When \<open>min_roots > max_roots\<close>, the draw of the root count raises
  ValueError; when the drawn root count exceeds the length of the root list (a repeated
  root counted as often as it occurs), the sampling raises ValueError, which is the case for
  every draw when \<open>min_roots\<close> already exceeds that length.  In each case \<open>generate_bundle\<close>
  ends with that error, which carries a message, and there is no bundle.
\<close>

theorem root_count_failure:
  "(max_roots (cfg gen) < min_roots (cfg gen) \<longrightarrow>
      (\<exists>e. generate_bundle up repr gen g = Inl e \<and> is_ValueError e \<and> message e \<noteq> [])) \<and>
   (\<forall>k g1. randint (min_roots (cfg gen)) (max_roots (cfg gen)) g = Inr (k, g1) \<and>
            int (length (place_roots (place_data gen))) < k \<longrightarrow>
      (\<exists>e. generate_bundle up repr gen g = Inl e \<and> is_ValueError e \<and> message e \<noteq> [])) \<and>
   (min_roots (cfg gen) \<le> max_roots (cfg gen) \<and>
    int (length (place_roots (place_data gen))) < min_roots (cfg gen) \<longrightarrow>
      (\<exists>e. generate_bundle up repr gen g = Inl e \<and> is_ValueError e \<and> message e \<noteq> []))"
proof (intro conjI impI allI)
  assume "max_roots (cfg gen) < min_roots (cfg gen)"
  from randint_error [OF this, of g]
  show "\<exists>e. generate_bundle up repr gen g = Inl e \<and> is_ValueError e \<and> message e \<noteq> []"
    by (auto simp: generate_bundle_def generate_place_name_def)
next
  fix k g1
  assume a: "randint (min_roots (cfg gen)) (max_roots (cfg gen)) g = Inr (k, g1) \<and>
          int (length (place_roots (place_data gen))) < k"
  then have "int (length (place_roots (place_data gen))) < k" by simp
  from sample_error [OF this, of g1] a
  show "\<exists>e. generate_bundle up repr gen g = Inl e \<and> is_ValueError e \<and> message e \<noteq> []"
    by (auto simp: generate_bundle_def generate_place_name_def)
next
  assume a: "min_roots (cfg gen) \<le> max_roots (cfg gen) \<and>
             int (length (place_roots (place_data gen))) < min_roots (cfg gen)"
  then obtain k g1 where r: "randint (min_roots (cfg gen)) (max_roots (cfg gen)) g = Inr (k, g1)"
    and k: "min_roots (cfg gen) \<le> k"
    using randint_range [of "min_roots (cfg gen)" "max_roots (cfg gen)" g] by blast
  with a have "int (length (place_roots (place_data gen))) < k" by simp
  from sample_error [OF this, of g1] r
  show "\<exists>e. generate_bundle up repr gen g = Inl e \<and> is_ValueError e \<and> message e \<noteq> []"
    by (auto simp: generate_bundle_def generate_place_name_def)
qed

theorem root_count_failure_witness:
  "raises is_ValueError
     (generate_bundle demo_upper demo_repr (demo_gen\<lparr>cfg := demo_cfg\<lparr>min_roots := 3\<rparr>\<rparr>) zeros) \<and>
   raises is_ValueError
     (generate_bundle demo_upper demo_repr
        (demo_gen\<lparr>cfg := demo_cfg\<lparr>min_roots := 5, max_roots := 6\<rparr>\<rparr>) counting)"
proof -
  let ?g1 = "demo_gen\<lparr>cfg := demo_cfg\<lparr>min_roots := 3\<rparr>\<rparr>"
  let ?g2 = "demo_gen\<lparr>cfg := demo_cfg\<lparr>min_roots := 5, max_roots := 6\<rparr>\<rparr>"
  have a: "max_roots (cfg ?g1) < min_roots (cfg ?g1)" by (simp add: demo_cfg_def)
  have b: "randint (min_roots (cfg ?g2)) (max_roots (cfg ?g2)) counting = Inr (5, \<lambda>i. counting (Suc i))"
    by (simp add: demo_cfg_def randint_def randbelow_def counting_def)
  have c: "int (length (place_roots (place_data ?g2))) < 5" by (simp add: demo_gen_def)
  have d: "min_roots (cfg ?g2) \<le> max_roots (cfg ?g2) \<and>
           int (length (place_roots (place_data ?g2))) < min_roots (cfg ?g2)"
    by (simp add: demo_gen_def demo_cfg_def)
  from root_count_failure [of ?g1 demo_upper demo_repr zeros] a
  have 1: "raises is_ValueError (generate_bundle demo_upper demo_repr ?g1 zeros)"
    by (auto simp: raises_def)
  from root_count_failure [of ?g2 demo_upper demo_repr counting] b c d
  have 2: "raises is_ValueError (generate_bundle demo_upper demo_repr ?g2 counting)"
    by (auto simp: raises_def)
  from 1 2 show ?thesis by simp
qed

text \<open>The claim as stated fails for a root list that repeats a root: with the one root
  \<open>a\<close> listed twice, the drawn root count 2 exceeds the number of distinct roots, 1, and a
  bundle is returned.\<close>

theorem repeated_root_count_counterexample:
  "length (remdups (place_roots (place_data dup_gen))) = 1 \<and>
   outcome (randint (min_roots (cfg dup_gen)) (max_roots (cfg dup_gen)) zeros) = Inr 2 \<and>
   outcome (generate_bundle demo_upper demo_repr dup_gen zeros) =
     Inr \<lparr>village = ''Aa'',
          residents = \<lparr>males_fmt = [''Tom of Aa''], females_fmt = [''Ann of Aa'']\<rparr>\<rparr>"
  by code_simp




section \<open>Properties of the picker on list objects\<close>

lemma pick_loop_h_refines:
  assumes "src < b" and "b \<le> pool" and "b \<le> result" and "pool \<noteq> result"
    and "pool < fresh h" and "result < fresh h"
    and "k = nat (n - int (length (cell h result)))"
  shows "case pick_loop (cell h src) n (cell h pool) (cell h result) g of
           Inl e \<Rightarrow> pick_loop_h src n pool result h g = Some (Inl e)
         | Inr (xs, g') \<Rightarrow>
             \<exists>h'. pick_loop_h src n pool result h g = Some (Inr (result, h', g')) \<and>
                  cell h' result = xs \<and> (\<forall>a<b. cell h' a = cell h a) \<and> fresh h \<le> fresh h'"
  using assms
proof (induction k arbitrary: pool h g)
  case 0
  then have fin: "\<not> int (length (cell h result)) < n" by simp
  then have "pick_loop (cell h src) n (cell h pool) (cell h result) g = Inr (cell h result, g)"
    by (rule pick_loop_done)
  moreover from fin have "pick_loop_h src n pool result h g = Some (Inr (result, h, g))"
    by (subst pick_loop_h.simps) simp
  ultimately show ?case by simp
next
  case (Suc k)
  then have lt: "int (length (cell h result)) < n" by simp
  define pool1 where "pool1 = (if cell h pool = [] then fresh h else pool)"
  define h1 where "h1 = (if cell h pool = [] then snd (alloc (cell h src) h) else h)"
  define xs1 where "xs1 = (if cell h pool = [] then cell h src else cell h pool)"
  have ph: "(if cell h pool = [] then alloc (cell h src) h else (pool, h)) = (pool1, h1)"
    by (simp add: pool1_def h1_def alloc_def)
  have b_fresh: "b \<le> fresh h" using Suc.prems(2,5) by simp
  have p1: "b \<le> pool1" "pool1 \<noteq> result" "pool1 < fresh h1" "result < fresh h1"
    using Suc.prems b_fresh by (auto simp: pool1_def h1_def alloc_def)
  have c1: "cell h1 pool1 = xs1" "cell h1 result = cell h result" "cell h1 src = cell h src"
    using Suc.prems b_fresh by (auto simp: pool1_def h1_def xs1_def alloc_def)
  have f1: "\<forall>a<b. cell h1 a = cell h a" "fresh h \<le> fresh h1"
    using b_fresh by (auto simp: h1_def alloc_def)
  have xs1': "(if cell h pool = [] then cell h src else cell h pool) = xs1"
    by (simp add: xs1_def)
  have pure: "pick_loop (cell h src) n (cell h pool) (cell h result) g =
      (case choice xs1 g of
         Inl e \<Rightarrow> Inl e
       | Inr (c, g') \<Rightarrow>
           (case list_remove xs1 c of
              Inl e \<Rightarrow> Inl e
            | Inr xs \<Rightarrow> pick_loop (cell h src) n xs (cell h result @ [c]) g'))"
    using lt by (subst pick_loop.simps) (simp only: xs1' Let_def if_True)
  have heap: "pick_loop_h src n pool result h g =
      (case choice xs1 g of
         Inl e \<Rightarrow> Some (Inl e)
       | Inr (c, g') \<Rightarrow>
           (case list_remove xs1 c of
              Inl e \<Rightarrow> Some (Inl e)
            | Inr xs \<Rightarrow>
                pick_loop_h src n pool1 result
                  (store result (cell (store pool1 xs h1) result @ [c]) (store pool1 xs h1)) g'))"
    using lt by (subst pick_loop_h.simps) (simp add: ph c1 Let_def split: sum.splits prod.splits)
  show ?case
  proof (cases "choice xs1 g")
    case (Inl e)
    with pure heap show ?thesis by simp
  next
    case (Inr cg)
    obtain c g' where cg: "cg = (c, g')" by (cases cg)
    show ?thesis
    proof (cases "list_remove xs1 c")
      case (Inl e)
      with Inr cg pure heap show ?thesis by simp
    next
      case rm: (Inr xs)
      let ?h3 = "store result (cell (store pool1 xs h1) result @ [c]) (store pool1 xs h1)"
      have c3: "cell ?h3 result = cell h result @ [c]" "cell ?h3 pool1 = xs"
        "cell ?h3 src = cell h src"
        using p1 c1 Suc.prems(1,3) by (auto simp: store_def)
      have f3: "\<forall>a<b. cell ?h3 a = cell h a" "fresh ?h3 = fresh h1"
        using p1 f1 Suc.prems(3) by (auto simp: store_def)
      have k: "k = nat (n - int (length (cell ?h3 result)))"
        using Suc.prems(7) by (simp add: c3)
      have pre: "pool1 < fresh ?h3" "result < fresh ?h3" using p1 f3 by simp_all
      note IH = Suc.IH [OF Suc.prems(1) p1(1) Suc.prems(3) p1(2) pre k, of g']
      have pure': "pick_loop (cell h src) n (cell h pool) (cell h result) g =
                   pick_loop (cell ?h3 src) n (cell ?h3 pool1) (cell ?h3 result) g'"
        using pure Inr cg rm by (simp add: c3)
      have heap': "pick_loop_h src n pool result h g = pick_loop_h src n pool1 result ?h3 g'"
        using heap Inr cg rm by simp
      show ?thesis
      proof (cases "pick_loop (cell ?h3 src) n (cell ?h3 pool1) (cell ?h3 result) g'")
        case (Inl e)
        with IH pure' heap' show ?thesis by simp
      next
        case (Inr rg)
        obtain r g'' where rg: "rg = (r, g'')" by (cases rg)
        from IH Inr rg obtain h'
          where "pick_loop_h src n pool1 result ?h3 g' = Some (Inr (result, h', g''))"
            and "cell h' result = r" and "\<forall>a<b. cell h' a = cell ?h3 a" and "fresh ?h3 \<le> fresh h'"
          by auto
        with f3 f1 have "pick_loop_h src n pool result h g = Some (Inr (result, h', g'')) \<and>
            cell h' result = r \<and> (\<forall>a<b. cell h' a = cell h a) \<and> fresh h \<le> fresh h'"
          using heap' by simp
        with pure' Inr rg show ?thesis by auto
      qed
    qed
  qed
qed

lemma pick_loop_gui_done:
  assumes "\<not> (int (length res) < n \<and> src \<noteq> [])"
  shows "pick_loop_gui src n pool res g = Inr (res, g)"
  by (subst pick_loop_gui.simps) (simp only: assms if_False)

lemma pick_loop_gui_h_refines:
  assumes "cell h src \<noteq> []" and "src < b" and "b \<le> pool" and "b \<le> result" and "pool \<noteq> result"
    and "pool < fresh h" and "result < fresh h"
    and "k = nat (n - int (length (cell h result)))"
  shows "case pick_loop_gui (cell h src) n (cell h pool) (cell h result) g of
           Inl e \<Rightarrow> pick_loop_gui_h src n pool result h g = Some (Inl e)
         | Inr (xs, g') \<Rightarrow>
             \<exists>h'. pick_loop_gui_h src n pool result h g = Some (Inr (result, h', g')) \<and>
                  cell h' result = xs \<and> (\<forall>a<b. cell h' a = cell h a) \<and> fresh h \<le> fresh h'"
  using assms
proof (induction k arbitrary: pool h g)
  case 0
  then have fin: "\<not> (int (length (cell h result)) < n \<and> cell h src \<noteq> [])" by simp
  then have "pick_loop_gui (cell h src) n (cell h pool) (cell h result) g = Inr (cell h result, g)"
    by (rule pick_loop_gui_done)
  moreover have "pick_loop_gui_h src n pool result h g = Some (Inr (result, h, g))"
    by (subst pick_loop_gui_h.simps) (simp only: fin if_False)
  ultimately show ?case by simp
next
  case (Suc k)
  then have lt: "int (length (cell h result)) < n \<and> cell h src \<noteq> []" by simp
  define pool1 where "pool1 = (if cell h pool = [] then fresh h else pool)"
  define h1 where "h1 = (if cell h pool = [] then snd (alloc (cell h src) h) else h)"
  define xs1 where "xs1 = (if cell h pool = [] then cell h src else cell h pool)"
  have ph: "(if cell h pool = [] then alloc (cell h src) h else (pool, h)) = (pool1, h1)"
    by (simp add: pool1_def h1_def alloc_def)
  have b_fresh: "b \<le> fresh h" using Suc.prems(3,6) by simp
  have p1: "b \<le> pool1" "pool1 \<noteq> result" "pool1 < fresh h1" "result < fresh h1"
    using Suc.prems(2-) b_fresh by (auto simp: pool1_def h1_def alloc_def)
  have c1: "cell h1 pool1 = xs1" "cell h1 result = cell h result" "cell h1 src = cell h src"
    using Suc.prems(2-) b_fresh by (auto simp: pool1_def h1_def xs1_def alloc_def)
  have f1: "\<forall>a<b. cell h1 a = cell h a" "fresh h \<le> fresh h1"
    using b_fresh by (auto simp: h1_def alloc_def)
  have xs1': "(if cell h pool = [] then cell h src else cell h pool) = xs1"
    by (simp add: xs1_def)
  have pure: "pick_loop_gui (cell h src) n (cell h pool) (cell h result) g =
      (case choice xs1 g of
         Inl e \<Rightarrow> Inl e
       | Inr (c, g') \<Rightarrow>
           (case list_remove xs1 c of
              Inl e \<Rightarrow> Inl e
            | Inr xs \<Rightarrow> pick_loop_gui (cell h src) n xs (cell h result @ [c]) g'))"
    using lt by (subst pick_loop_gui.simps) (simp only: xs1' Let_def if_True simp_thms)
  have heap: "pick_loop_gui_h src n pool result h g =
      (case choice xs1 g of
         Inl e \<Rightarrow> Some (Inl e)
       | Inr (c, g') \<Rightarrow>
           (case list_remove xs1 c of
              Inl e \<Rightarrow> Some (Inl e)
            | Inr xs \<Rightarrow>
                pick_loop_gui_h src n pool1 result
                  (store result (cell (store pool1 xs h1) result @ [c]) (store pool1 xs h1)) g'))"
    using lt by (subst pick_loop_gui_h.simps) (simp add: ph c1 Let_def split: sum.splits prod.splits)
  show ?case
  proof (cases "choice xs1 g")
    case (Inl e)
    with pure heap show ?thesis by simp
  next
    case (Inr cg)
    obtain c g' where cg: "cg = (c, g')" by (cases cg)
    show ?thesis
    proof (cases "list_remove xs1 c")
      case (Inl e)
      with Inr cg pure heap show ?thesis by simp
    next
      case rm: (Inr xs)
      let ?h3 = "store result (cell (store pool1 xs h1) result @ [c]) (store pool1 xs h1)"
      have c3: "cell ?h3 result = cell h result @ [c]" "cell ?h3 pool1 = xs"
        "cell ?h3 src = cell h src"
        using p1 c1 Suc.prems(2,4) by (auto simp: store_def)
      have f3: "\<forall>a<b. cell ?h3 a = cell h a" "fresh ?h3 = fresh h1"
        using p1 f1 Suc.prems(4) by (auto simp: store_def)
      have k: "k = nat (n - int (length (cell ?h3 result)))"
        using Suc.prems(8) by (simp add: c3)
      have pre: "pool1 < fresh ?h3" "result < fresh ?h3" using p1 f3 by simp_all
      have ne3: "cell ?h3 src \<noteq> []" using c3 Suc.prems(1) by simp
      note IH = Suc.IH [OF ne3 Suc.prems(2) p1(1) Suc.prems(4) p1(2) pre k, of g']
      have pure': "pick_loop_gui (cell h src) n (cell h pool) (cell h result) g =
                   pick_loop_gui (cell ?h3 src) n (cell ?h3 pool1) (cell ?h3 result) g'"
        using pure Inr cg rm by (simp add: c3)
      have heap': "pick_loop_gui_h src n pool result h g = pick_loop_gui_h src n pool1 result ?h3 g'"
        using heap Inr cg rm by simp
      show ?thesis
      proof (cases "pick_loop_gui (cell ?h3 src) n (cell ?h3 pool1) (cell ?h3 result) g'")
        case (Inl e)
        with IH pure' heap' show ?thesis by simp
      next
        case (Inr rg)
        obtain r g'' where rg: "rg = (r, g'')" by (cases rg)
        from IH Inr rg obtain h'
          where "pick_loop_gui_h src n pool1 result ?h3 g' = Some (Inr (result, h', g''))"
            and "cell h' result = r" and "\<forall>a<b. cell h' a = cell ?h3 a" and "fresh ?h3 \<le> fresh h'"
          by auto
        with f3 f1 have "pick_loop_gui_h src n pool result h g = Some (Inr (result, h', g'')) \<and>
            cell h' result = r \<and> (\<forall>a<b. cell h' a = cell h a) \<and> fresh h \<le> fresh h'"
          using heap' by simp
        with pure' Inr rg show ?thesis by auto
      qed
    qed
  qed
qed

lemma pick_unique_h_refines:
  assumes "src < fresh h"
  shows "case pick_unique (cell h src) n g of
           Inl e \<Rightarrow> pick_unique_h src n h g = Some (Inl e)
         | Inr (xs, g') \<Rightarrow>
             \<exists>r h'. pick_unique_h src n h g = Some (Inr (r, h', g')) \<and> cell h' r = xs \<and>
                    fresh h \<le> r \<and> (\<forall>a<fresh h. cell h' a = cell h a)"
proof (cases "n \<le> int (length (cell h src))")
  case True
  then show ?thesis
    by (cases "sample (cell h src) n g")
       (auto simp: pick_unique_def pick_unique_h_def alloc_def)
next
  case False
  show ?thesis
  proof (cases "cell h src = []")
    case True
    with False assms show ?thesis
      by (auto simp: pick_unique_def pick_unique_h_def alloc_def)
  next
    case ne: False
    let ?h1 = "snd (alloc [] h)"
    let ?h2 = "snd (alloc (cell ?h1 src) ?h1)"
    have c: "cell ?h2 src = cell h src" "cell ?h2 (Suc (fresh h)) = cell h src"
      "cell ?h2 (fresh h) = []" "fresh ?h2 = Suc (Suc (fresh h))"
      "\<forall>a<fresh h. cell ?h2 a = cell h a" "cell ?h1 src = cell h src"
      using assms by (auto simp: alloc_def)
    have unf: "pick_unique_h src n h g = pick_loop_h src n (Suc (fresh h)) (fresh h) ?h2 g"
      using False ne c(6) by (simp add: pick_unique_h_def alloc_def)
    have pure: "pick_unique (cell h src) n g = pick_loop (cell h src) n (cell h src) [] g"
      using False ne by (simp add: pick_unique_def)
    have "case pick_loop (cell ?h2 src) n (cell ?h2 (Suc (fresh h))) (cell ?h2 (fresh h)) g of
            Inl e \<Rightarrow> pick_loop_h src n (Suc (fresh h)) (fresh h) ?h2 g = Some (Inl e)
          | Inr (xs, g') \<Rightarrow>
              \<exists>h'. pick_loop_h src n (Suc (fresh h)) (fresh h) ?h2 g =
                     Some (Inr (fresh h, h', g')) \<and>
                   cell h' (fresh h) = xs \<and> (\<forall>a<fresh h. cell h' a = cell ?h2 a) \<and>
                   fresh ?h2 \<le> fresh h'"
      using assms c(4) by (intro pick_loop_h_refines [where k = "nat (n - int (length (cell ?h2 (fresh h))))"]) simp_all
    then show ?thesis
      unfolding unf pure c(1,2,3)
      by (cases "pick_loop (cell h src) n (cell h src) [] g") (auto simp: c(5))
  qed
qed

lemma pick_unique_gui_h_refines:
  assumes "src < fresh h"
  shows "case pick_unique_gui (cell h src) n g of
           Inl e \<Rightarrow> pick_unique_gui_h src n h g = Some (Inl e)
         | Inr (xs, g') \<Rightarrow>
             \<exists>r h'. pick_unique_gui_h src n h g = Some (Inr (r, h', g')) \<and> cell h' r = xs \<and>
                    fresh h \<le> r \<and> (\<forall>a<fresh h. cell h' a = cell h a)"
proof (cases "n \<le> int (length (cell h src))")
  case True
  then show ?thesis
    by (cases "sample (cell h src) n g")
       (auto simp: pick_unique_gui_def pick_unique_gui_h_def alloc_def)
next
  case False
  let ?h1 = "snd (alloc [] h)"
  let ?h2 = "snd (alloc (cell ?h1 src) ?h1)"
  have c: "cell ?h2 src = cell h src" "cell ?h2 (Suc (fresh h)) = cell h src"
    "cell ?h2 (fresh h) = []" "fresh ?h2 = Suc (Suc (fresh h))"
    "\<forall>a<fresh h. cell ?h2 a = cell h a" "cell ?h1 src = cell h src"
    using assms by (auto simp: alloc_def)
  have unf: "pick_unique_gui_h src n h g = pick_loop_gui_h src n (Suc (fresh h)) (fresh h) ?h2 g"
    using False by (simp add: pick_unique_gui_h_def alloc_def)
  have pure: "pick_unique_gui (cell h src) n g = pick_loop_gui (cell h src) n (cell h src) [] g"
    using False by (simp add: pick_unique_gui_def)
  show ?thesis
  proof (cases "cell h src = []")
    case True
    then have "pick_loop_gui (cell h src) n (cell h src) [] g = Inr ([], g)"
      by (intro pick_loop_gui_done) simp
    moreover have "pick_loop_gui_h src n (Suc (fresh h)) (fresh h) ?h2 g =
                   Some (Inr (fresh h, ?h2, g))"
      using True c(1) by (subst pick_loop_gui_h.simps) simp
    ultimately show ?thesis unfolding unf pure using c(3,5) by simp
  next
    case ne: False
    then have ne2: "cell ?h2 src \<noteq> []" using c(1) by simp
    have "case pick_loop_gui (cell ?h2 src) n (cell ?h2 (Suc (fresh h))) (cell ?h2 (fresh h)) g of
            Inl e \<Rightarrow> pick_loop_gui_h src n (Suc (fresh h)) (fresh h) ?h2 g = Some (Inl e)
          | Inr (xs, g') \<Rightarrow>
              \<exists>h'. pick_loop_gui_h src n (Suc (fresh h)) (fresh h) ?h2 g =
                     Some (Inr (fresh h, h', g')) \<and>
                   cell h' (fresh h) = xs \<and> (\<forall>a<fresh h. cell h' a = cell ?h2 a) \<and>
                   fresh ?h2 \<le> fresh h'"
      using assms c(4) ne2
      by (intro pick_loop_gui_h_refines [where k = "nat (n - int (length (cell ?h2 (fresh h))))"]) simp_all
    then show ?thesis
      unfolding unf pure c(1,2,3)
      by (cases "pick_loop_gui (cell h src) n (cell h src) [] g") (auto simp: c(5))
  qed
qed

text \<open>
  Claim C10.  The picker never changes the list it is given.  Run on a heap where \<open>src\<close> is
  the address of an existing list, either module's picker always returns (or raises, for a
  negative \<open>n\<close>), it returns what the picker computes on the content of \<open>src\<close>, in a new
  list, and afterwards \<open>src\<close> and every other list that existed before the call hold exactly
  what they held before: all removal is done on the copies.
\<close>

theorem pick_unique_keeps_source:
  assumes "src < fresh h"
  shows "(case pick_unique (cell h src) n g of
            Inl e \<Rightarrow> pick_unique_h src n h g = Some (Inl e)
          | Inr (xs, g') \<Rightarrow>
              \<exists>r h'. pick_unique_h src n h g = Some (Inr (r, h', g')) \<and> cell h' r = xs \<and>
                     fresh h \<le> r \<and> cell h' src = cell h src \<and>
                     (\<forall>a<fresh h. cell h' a = cell h a)) \<and>
         (case pick_unique_gui (cell h src) n g of
            Inl e \<Rightarrow> pick_unique_gui_h src n h g = Some (Inl e)
          | Inr (xs, g') \<Rightarrow>
              \<exists>r h'. pick_unique_gui_h src n h g = Some (Inr (r, h', g')) \<and> cell h' r = xs \<and>
                     fresh h \<le> r \<and> cell h' src = cell h src \<and>
                     (\<forall>a<fresh h. cell h' a = cell h a))"
proof
  from pick_unique_h_refines [OF assms, of n g] assms
  show "case pick_unique (cell h src) n g of
            Inl e \<Rightarrow> pick_unique_h src n h g = Some (Inl e)
          | Inr (xs, g') \<Rightarrow>
              \<exists>r h'. pick_unique_h src n h g = Some (Inr (r, h', g')) \<and> cell h' r = xs \<and>
                     fresh h \<le> r \<and> cell h' src = cell h src \<and>
                     (\<forall>a<fresh h. cell h' a = cell h a)"
    by (cases "pick_unique (cell h src) n g") auto
next
  from pick_unique_gui_h_refines [OF assms, of n g] assms
  show "case pick_unique_gui (cell h src) n g of
            Inl e \<Rightarrow> pick_unique_gui_h src n h g = Some (Inl e)
          | Inr (xs, g') \<Rightarrow>
              \<exists>r h'. pick_unique_gui_h src n h g = Some (Inr (r, h', g')) \<and> cell h' r = xs \<and>
                     fresh h \<le> r \<and> cell h' src = cell h src \<and>
                     (\<forall>a<fresh h. cell h' a = cell h a)"
    by (cases "pick_unique_gui (cell h src) n g") auto
qed

theorem pick_unique_keeps_source_witness:
  "0 < fresh demo_heap \<and>
   (\<exists>r h' g'. pick_unique_h 0 3 demo_heap zeros = Some (Inr (r, h', g')) \<and>
      cell h' r = [''Tom'', ''Ann'', ''Tom''] \<and> cell h' 0 = [''Tom'', ''Ann''])"
proof -
  have f: "0 < fresh demo_heap" by (simp add: demo_heap_def)
  have c0: "cell demo_heap 0 = [''Tom'', ''Ann'']" by (simp add: demo_heap_def)
  have "outcome (pick_unique [''Tom'', ''Ann''] 3 zeros) = Inr [''Tom'', ''Ann'', ''Tom'']"
    by code_simp
  then obtain g' where p: "pick_unique (cell demo_heap 0) 3 zeros = Inr ([''Tom'', ''Ann'', ''Tom''], g')"
    unfolding c0 by (cases "pick_unique [''Tom'', ''Ann''] 3 zeros") (auto simp: outcome_def)
  from pick_unique_keeps_source [OF f, of 3 zeros] p c0
  have "\<exists>r h'. pick_unique_h 0 3 demo_heap zeros = Some (Inr (r, h', g')) \<and>
          cell h' r = [''Tom'', ''Ann'', ''Tom''] \<and> cell h' 0 = [''Tom'', ''Ann'']"
    by auto
  with f show ?thesis by blast
qed

end
